theory Spec2Isabelle
  imports Complex_Main "HOL-Library.Sublist"
begin

section \<open>Numbers and strings of the host language\<close>

text \<open>
  The program is TypeScript. Its \<open>number\<close> values are modelled by mathematical numbers:
  a retry count is an \<open>int\<close>, a delay in milliseconds and a backoff factor are \<open>real\<close>
  (the rounding of IEEE doubles is not modelled). A string is a \<open>char list\<close>; the model
  covers the code units below 256.
\<close>

definition digit :: "nat \<Rightarrow> char" where
  "digit d = ''0123456789'' ! d"

fun show_nat :: "nat \<Rightarrow> string" where
  "show_nat n = (if n < 10 then [digit n] else show_nat (n div 10) @ [digit (n mod 10)])"

declare show_nat.simps [simp del]

definition show_int :: "int \<Rightarrow> string" where
  \<comment> \<open>what a template literal prints for an integral number\<close>
  "show_int i = (if i < 0 then ''-'' @ show_nat (nat (- i)) else show_nat (nat i))"

section \<open>src/utils/retry.ts\<close>

record RetryConfig =
  retries :: int
  retryInterval :: real
  retryBackoff :: real

definition DEFAULT_RETRY_CONFIG :: RetryConfig where
  "DEFAULT_RETRY_CONFIG = \<lparr>retries = 1, retryInterval = 1000, retryBackoff = 2\<rparr>"

text \<open>
  What a call of \<open>executeWithRetry\<close> does besides returning, in the order it does it:
  it invokes the operation, it prints a warning, it sleeps.
\<close>

datatype effect =
    Attempted
  | Warned nat real string
  | Slept real

text \<open>
  How the returned promise is rejected: with the new \<open>Error\<close> of line 46, or by the
  \<open>throw lastError!\<close> after the loop, where \<open>lastError\<close> may never have been assigned.
\<close>

datatype failure =
    Failed string
  | Rethrown "string option"

text \<open>
  The operation is a closure with a state of its own: a call takes the state, and either
  resolves (\<open>Inr\<close>) or rejects with an error whose message is given (\<open>Inl\<close>).
\<close>

type_synonym ('s, 'a) operation = "'s \<Rightarrow> (string + 'a) \<times> 's"

definition contextMsg :: "string option \<Rightarrow> string" where
  \<comment> \<open>\<open>context ? ` (${context})` : ''\<close>: an empty label is falsy\<close>
  "contextMsg context =
     (case context of
        None \<Rightarrow> []
      | Some c \<Rightarrow> if c = [] then [] else '' ('' @ c @ '')'')"

definition warning :: "string option \<Rightarrow> nat \<Rightarrow> real \<Rightarrow> string option \<Rightarrow> string \<Rightarrow> effect list" where
  \<comment> \<open>the \<open>console.warn\<close> of line 53, silent when \<open>NODE_ENV\<close> is \<open>test\<close>\<close>
  "warning node_env attempt delay context message =
     (if node_env \<noteq> Some ''test''
      then [Warned attempt delay (contextMsg context @ '': '' @ message)]
      else [])"

function retry_loop ::
  "string option \<Rightarrow> ('s, 'a) operation \<Rightarrow> RetryConfig \<Rightarrow> string option \<Rightarrow>
   string option \<Rightarrow> nat \<Rightarrow> 's \<Rightarrow> (failure + 'a) \<times> 's \<times> effect list"
where
  "retry_loop node_env operation config context lastError attempt s =
     (if int attempt < retries config + 1 then
        (case operation s of
           (Inr v, s') \<Rightarrow> (Inr v, s', [Attempted])
         | (Inl message, s') \<Rightarrow>
             if int (attempt + 1) \<ge> retries config + 1 then
               (Inl (Failed (''Failed after '' @ show_int (retries config) @ '' retries''
                             @ contextMsg context @ '': '' @ message)),
                s', [Attempted])
             else
               (case retry_loop node_env operation config context (Some message) (attempt + 1) s' of
                  (r, s'', effects) \<Rightarrow>
                    (r, s'',
                     Attempted
                     # warning node_env (attempt + 1)
                         (retryInterval config * retryBackoff config ^ (attempt + 1 - 1))
                         context message
                     @ Slept (retryInterval config * retryBackoff config ^ (attempt + 1 - 1))
                     # effects)))
      else (Inl (Rethrown lastError), s, []))"
  by pat_completeness auto
termination
  by (relation "measure (\<lambda>(node_env, operation, config, context, lastError, attempt, s).
                  nat (retries config + 1 - int attempt))") auto

declare retry_loop.simps [simp del]

definition executeWithRetry ::
  "string option \<Rightarrow> ('s, 'a) operation \<Rightarrow> RetryConfig \<Rightarrow> string option \<Rightarrow> 's \<Rightarrow>
   (failure + 'a) \<times> 's \<times> effect list"
where
  "executeWithRetry node_env operation config context s =
     retry_loop node_env operation config context None 0 s"

subsection \<open>Reading a run\<close>

definition result_of :: "(failure + 'a) \<times> 's \<times> effect list \<Rightarrow> failure + 'a" where
  "result_of run = fst run"

definition effects_of :: "(failure + 'a) \<times> 's \<times> effect list \<Rightarrow> effect list" where
  "effects_of run = snd (snd run)"

fun is_warning :: "effect \<Rightarrow> bool" where
  "is_warning (Warned _ _ _) = True"
| "is_warning _ = False"

definition schedule :: "effect list \<Rightarrow> effect list" where
  \<comment> \<open>the attempts and the sleeps of a run, in order\<close>
  "schedule effects = filter (\<lambda>e. \<not> is_warning e) effects"

definition attempts :: "effect list \<Rightarrow> nat" where
  "attempts effects = length (filter (\<lambda>e. e = Attempted) effects)"

fun delay_of :: "effect \<Rightarrow> real option" where
  "delay_of (Slept d) = Some d"
| "delay_of _ = None"

definition delays :: "effect list \<Rightarrow> real list" where
  "delays effects = List.map_filter delay_of effects"

fun outcomes :: "('s, 'a) operation \<Rightarrow> 's \<Rightarrow> nat \<Rightarrow> (string + 'a) list" where
  \<comment> \<open>what the first \<open>n\<close> invocations of the operation answer\<close>
  "outcomes operation s 0 = []"
| "outcomes operation s (Suc n) =
     (case operation s of (r, s') \<Rightarrow> r # outcomes operation s' n)"

definition first_success :: "(string + 'a) list \<Rightarrow> nat" where
  \<comment> \<open>the index, from 1, of the first invocation that resolves; one past the end if none\<close>
  "first_success rs = Suc (length (takeWhile isl rs))"

definition plan :: "real \<Rightarrow> real \<Rightarrow> nat \<Rightarrow> nat \<Rightarrow> effect list" where
  \<comment> \<open>\<open>m\<close> attempts, the first numbered \<open>a + 1\<close>, and the sleeps between them\<close>
  "plan i b a m = Attempted # concat (map (\<lambda>j. [Slept (i * b ^ j), Attempted]) [a..<a + (m - 1)])"

text \<open>
  Two operations of tests/retry.test.ts. Their state is the test's counter \<open>attempts\<close>:
  the first fails while \<open>attempts < 3\<close>, the second always fails.
\<close>

definition flaky :: "(nat, string) operation" where
  "flaky n =
     (if n + 1 < 3 then Inl ''Temporary failure'' else Inr ''success after retries'', n + 1)"

definition persistent :: "(nat, string) operation" where
  "persistent n = (Inl ''Persistent failure'', n + 1)"

text \<open>Two policies of the same tests: two retries, and none.\<close>

definition test_config :: RetryConfig where
  "test_config = \<lparr>retries = 2, retryInterval = 50, retryBackoff = 2\<rparr>"

definition single_attempt_config :: RetryConfig where
  "single_attempt_config = \<lparr>retries = 0, retryInterval = 10, retryBackoff = 2\<rparr>"

section \<open>src/utils/parser.ts\<close>

subsection \<open>What the regular expressions and \<open>trim\<close> use\<close>

definition is_word :: "char \<Rightarrow> bool" where
  \<comment> \<open>the class \<open>\w\<close>: letters, digits and the underscore\<close>
  "is_word c =
     (let n = (of_char c :: nat)
      in (48 \<le> n \<and> n \<le> 57) \<or> (65 \<le> n \<and> n \<le> 90) \<or> n = 95 \<or> (97 \<le> n \<and> n \<le> 122))"

definition is_space :: "char \<Rightarrow> bool" where
  \<comment> \<open>white space and line terminators below 256: TAB, LF, VT, FF, CR, SP, NBSP\<close>
  "is_space c = ((of_char c :: nat) \<in> {9, 10, 11, 12, 13, 32, 160})"

definition trim :: "string \<Rightarrow> string" where
  "trim s = rev (dropWhile is_space (rev (dropWhile is_space s)))"

fun split_at :: "string \<Rightarrow> string \<Rightarrow> (string \<times> string) option" where
  \<comment> \<open>the text before and the text after the first occurrence of \<open>pat\<close>\<close>
  "split_at pat [] = (if pat = [] then Some ([], []) else None)"
| "split_at pat (c # cs) =
     (if prefix pat (c # cs) then Some ([], drop (length pat) (c # cs))
      else map_option (\<lambda>(before, after). (c # before, after)) (split_at pat cs))"

subsection \<open>Fenced code blocks\<close>

text \<open>
  A match of \<open>/```(\w*)\n([\s\S]*?)```/\<close> that starts at the first character of \<open>s\<close>:
  its groups 1 and 2, and the text after the match. The greedy \<open>\w*\<close> takes the whole
  run of word characters, since giving one back leaves a word character where the
  line feed must be; the lazy \<open>[\s\S]*?\<close> stops before the first closing marker.
\<close>

definition match_fence :: "string \<Rightarrow> (string \<times> string \<times> string) option" where
  "match_fence s =
     (if prefix ''```'' s then
        (case dropWhile is_word (drop 3 s) of
           [] \<Rightarrow> None
         | c # body \<Rightarrow>
             if c = CHR 0x0A then
               (case split_at ''```'' body of
                  None \<Rightarrow> None
                | Some (inner, rest) \<Rightarrow> Some (takeWhile is_word (drop 3 s), inner, rest))
             else None)
      else None)"

text \<open>
  The loop \<open>while ((match = codeBlockRegex.exec(content)) !== null)\<close> of a global
  expression: the leftmost match at or after \<open>lastIndex\<close>, then on from its end.
\<close>

function exec_all :: "string \<Rightarrow> (string \<times> string) list" where
  "exec_all [] = []"
| "exec_all (c # cs) =
     (case match_fence (c # cs) of
        Some (tag, inner, rest) \<Rightarrow> (tag, inner) # exec_all rest
      | None \<Rightarrow> exec_all cs)"
  by pat_completeness auto
termination
proof (relation "measure length")
  show "wf (measure length)" by simp
next
  fix c :: char and cs x2 tag y inner rest
  assume m: "match_fence (c # cs) = Some x2" and x2: "(tag, y) = x2" and y: "(inner, rest) = y"
  have shorter: "length after \<le> length body" if "split_at pat body = Some (before, after)"
    for pat body before after
    using that
    by (induction body arbitrary: before) (auto split: if_splits)
  from m x2 y obtain body where
    b: "dropWhile is_word (drop 3 (c # cs)) = CHR 0x0A # body"
    and s: "split_at ''```'' body = Some (inner, rest)"
    by (auto simp: match_fence_def split: if_splits list.splits option.splits)
  have "length (dropWhile is_word (drop 3 (c # cs))) \<le> length (c # cs)"
    by (rule order_trans [OF length_dropWhile_le]) simp
  with b have "length body < length (c # cs)" by simp
  with shorter [OF s] show "(rest, c # cs) \<in> measure length" by simp
next
  fix c :: char and cs
  show "(cs, c # cs) \<in> measure length" by simp
qed

text \<open>\<open>cleanContent.replace(/```[\w]*\n[\s\S]*?```/g, '')\<close>: every match is dropped.\<close>

function replace_all :: "string \<Rightarrow> string" where
  "replace_all [] = []"
| "replace_all (c # cs) =
     (case match_fence (c # cs) of
        Some (tag, inner, rest) \<Rightarrow> replace_all rest
      | None \<Rightarrow> c # replace_all cs)"
  by pat_completeness auto
termination
proof (relation "measure length")
  show "wf (measure length)" by simp
next
  fix c :: char and cs x2 tag y inner rest
  assume m: "match_fence (c # cs) = Some x2" and x2: "(tag, y) = x2" and y: "(inner, rest) = y"
  have shorter: "length after \<le> length body" if "split_at pat body = Some (before, after)"
    for pat body before after
    using that
    by (induction body arbitrary: before) (auto split: if_splits)
  from m x2 y obtain body where
    b: "dropWhile is_word (drop 3 (c # cs)) = CHR 0x0A # body"
    and s: "split_at ''```'' body = Some (inner, rest)"
    by (auto simp: match_fence_def split: if_splits list.splits option.splits)
  have "length (dropWhile is_word (drop 3 (c # cs))) \<le> length (c # cs)"
    by (rule order_trans [OF length_dropWhile_le]) simp
  with b have "length body < length (c # cs)" by simp
  with shorter [OF s] show "(rest, c # cs) \<in> measure length" by simp
next
  fix c :: char and cs
  show "(cs, c # cs) \<in> measure length" by simp
qed

subsection \<open>Thinking blocks\<close>

text \<open>
  The three expressions \<open>/<thinking>([\s\S]*?)<\/thinking>/\<close>,
  \<open>/<thought>([\s\S]*?)<\/thought>/\<close> and \<open>/\[thinking\]([\s\S]*?)\[\/thinking\]/\<close>, each
  given by its opening and its closing tag.
\<close>

definition thinkingPatterns :: "(string \<times> string) list" where
  "thinkingPatterns =
     [(''<thinking>'', ''</thinking>''),
      (''<thought>'', ''</thought>''),
      (''[thinking]'', ''[/thinking]'')]"

text \<open>
  The leftmost match of such an expression: the text before it, its group 1, the text
  after it. A match starts at the first occurrence of the opening tag (if no closing tag
  follows the first occurrence, none follows a later one) and ends with the first closing
  tag after it.
\<close>

definition match_pattern :: "string \<times> string \<Rightarrow> string \<Rightarrow> (string \<times> string \<times> string) option" where
  "match_pattern pattern s =
     (case split_at (fst pattern) s of
        None \<Rightarrow> None
      | Some (before, r) \<Rightarrow>
          (case split_at (snd pattern) r of
             None \<Rightarrow> None
           | Some (inner, after) \<Rightarrow> Some (before, inner, after)))"

fun first_thinking :: "(string \<times> string) list \<Rightarrow> string \<Rightarrow> string option" where
  \<comment> \<open>the loop over the patterns that stops at the first match\<close>
  "first_thinking [] s = None"
| "first_thinking (pattern # patterns) s =
     (case match_pattern pattern s of
        Some (before, inner, after) \<Rightarrow> Some (trim inner)
      | None \<Rightarrow> first_thinking patterns s)"

definition replace_first :: "string \<times> string \<Rightarrow> string \<Rightarrow> string" where
  \<comment> \<open>\<open>cleanContent.replace(pattern, '')\<close>: the first match is dropped\<close>
  "replace_first pattern s =
     (case match_pattern pattern s of
        Some (before, inner, after) \<Rightarrow> before @ after
      | None \<Rightarrow> s)"

subsection \<open>\<open>ResponseParser.parseResponse\<close>\<close>

record CodeBlock =
  language :: string
  code :: string

text \<open>A tool call of src/types.ts, without its \<open>execute\<close> closure.\<close>

datatype ToolCall = ToolCall (call_id: string) (function_name: string) (args: string)

record ParsedResult =
  content :: string
  codeBlocks :: "CodeBlock list"
  thinking :: "string option"
  toolCalls :: "ToolCall list option"

definition parseResponse :: "string \<Rightarrow> ParsedResult" where
  "parseResponse input =
     \<lparr>content = trim (fold replace_first thinkingPatterns (replace_all input)),
      codeBlocks =
        map (\<lambda>(tag, inner). \<lparr>language = (if tag = [] then ''text'' else tag), code = trim inner\<rparr>)
            (exec_all input),
      thinking = first_thinking thinkingPatterns input,
      toolCalls = Some []\<rparr>"

text \<open>The fixture of the specification's scenario.\<close>

definition fixture :: string where
  "fixture = ''Hello\<newline>```python\<newline>def add(a,b):\<newline>  return a+b\<newline>```\<newline>Done''"

subsection \<open>Texts with fenced regions, and regions between tags\<close>

definition begins_in :: "string \<Rightarrow> string \<Rightarrow> bool" where
  \<comment> \<open>an occurrence of \<open>pat\<close> begins within \<open>s\<close>, even if it runs past the end of \<open>s\<close>\<close>
  "begins_in pat s = sublist pat (s @ butlast pat)"

definition fence :: "string \<Rightarrow> string \<Rightarrow> string" where
  \<comment> \<open>a fenced region as the expression of the code block sees it: the tag ends its line\<close>
  "fence tag inner = ''```'' @ tag @ ''\<newline>'' @ inner @ ''```''"

fun render :: "(string \<times> string \<times> string) list \<Rightarrow> string \<Rightarrow> string" where
  \<comment> \<open>the text made of fenced regions, each after a stretch of other text, and a tail\<close>
  "render [] tail = tail"
| "render ((gap, tag, inner) # regions) tail = gap @ fence tag inner @ render regions tail"

definition opens_fence :: "string \<Rightarrow> bool" where
  \<comment> \<open>\<open>s\<close> begins with a fenced region\<close>
  "opens_fence s = (\<exists>tag inner rest. list_all is_word tag \<and> s = fence tag inner @ rest)"

definition quiet :: "string \<Rightarrow> string \<Rightarrow> bool" where
  \<comment> \<open>no fenced region begins within \<open>gap\<close>, read with the text that follows it\<close>
  "quiet gap following = (\<forall>k<length gap. \<not> opens_fence (drop k (gap @ following)))"

fun well_fenced :: "(string \<times> string \<times> string) list \<Rightarrow> string \<Rightarrow> bool" where
  \<comment> \<open>the regions are all the fenced regions of the text, each closed by the next marker\<close>
  "well_fenced [] tail = quiet tail []"
| "well_fenced ((gap, tag, inner) # regions) tail =
     (quiet gap (fence tag inner @ render regions tail)
      \<and> list_all is_word tag \<and> \<not> begins_in ''```'' inner
      \<and> well_fenced regions tail)"

definition first_region :: "string \<times> string \<Rightarrow> string \<Rightarrow> string \<Rightarrow> string \<Rightarrow> string \<Rightarrow> bool" where
  \<comment> \<open>\<open>s\<close> is \<open>a\<close>, the first opening tag, \<open>i\<close>, the first closing tag after it, \<open>b\<close>\<close>
  "first_region pattern s a i b =
     (s = a @ fst pattern @ i @ snd pattern @ b
      \<and> \<not> begins_in (fst pattern) a \<and> \<not> begins_in (snd pattern) i)"

definition has_region :: "string \<times> string \<Rightarrow> string \<Rightarrow> bool" where
  \<comment> \<open>somewhere in \<open>s\<close> an opening tag is followed by a closing tag\<close>
  "has_region pattern s = (\<exists>a i b. s = a @ fst pattern @ i @ snd pattern @ b)"

definition cut :: "string \<times> string \<Rightarrow> string \<Rightarrow> string \<Rightarrow> bool" where
  \<comment> \<open>\<open>s'\<close> is \<open>s\<close> without its first region of the pattern, or \<open>s\<close> itself if it has none\<close>
  "cut pattern s s' =
     ((\<exists>a i b. first_region pattern s a i b \<and> s' = a @ b)
      \<or> (\<not> has_region pattern s \<and> s' = s))"

subsection \<open>The structuring as the specification words it\<close>

text \<open>
  The specification's fenced region: a triple-backtick marker, optionally a language tag,
  closed by the next triple-backtick marker. Nothing is said of the end of the tag's line.
\<close>

definition spec_fence :: "string \<Rightarrow> string \<Rightarrow> string" where
  "spec_fence tag inner = ''```'' @ tag @ inner @ ''```''"

fun spec_render :: "(string \<times> string \<times> string) list \<Rightarrow> string \<Rightarrow> string" where
  "spec_render [] tail = tail"
| "spec_render ((gap, tag, inner) # regions) tail =
     gap @ spec_fence tag inner @ spec_render regions tail"

definition CRLF :: string where
  "CRLF = [CHR 0x0D, CHR 0x0A]"

text \<open>
  The specification's content: the text with every fenced region and the one matched
  thinking region removed, then trimmed. The one region is that of the first pattern that
  matches the text without its fenced regions.
\<close>

fun remove_first_matching :: "(string \<times> string) list \<Rightarrow> string \<Rightarrow> string" where
  "remove_first_matching [] s = s"
| "remove_first_matching (pattern # patterns) s =
     (case match_pattern pattern s of
        Some (before, inner, after) \<Rightarrow> before @ after
      | None \<Rightarrow> remove_first_matching patterns s)"

definition spec_content :: "string \<Rightarrow> string" where
  "spec_content input = trim (remove_first_matching thinkingPatterns (replace_all input))"

text \<open>
  The specification's thinking: the patterns, in order, against the text with all fenced
  regions stripped.
\<close>

definition spec_thinking :: "string \<Rightarrow> string option" where
  "spec_thinking input = first_thinking thinkingPatterns (replace_all input)"

text \<open>Two texts with fenced regions, given by their regions.\<close>

definition two_blocks :: "(string \<times> string \<times> string) list" where
  "two_blocks =
     [(''Hello\<newline>'', ''python'', ''def add(a,b):\<newline>  return a+b\<newline>''),
      ('' and `x` then\<newline>'', '''', '' ls -l '')]"

definition thoughtful :: "(string \<times> string \<times> string) list" where
  "thoughtful =
     [(''<thinking>plan</thinking>Hello\<newline>'', ''python'', ''def add(a,b):\<newline>  return a+b\<newline>'')]"

section \<open>Streaming: src/providers/anthropic.ts, the Ollama provider, src/providers/huggingface.ts\<close>

subsection \<open>Decoded JSON, results and what a stream does\<close>

datatype json =
    JNull
  | JBool bool
  | JNum int
  | JStr string
  | JArr "json list"
  | JObj "(string \<times> json) list"

fun property :: "json \<Rightarrow> string \<Rightarrow> json option" where
  \<comment> \<open>\<open>value.key\<close> for a value that is not null; \<open>None\<close> is \<open>undefined\<close>\<close>
  "property (JObj members) key = map_of members key"
| "property _ key = None"

fun truthy :: "json option \<Rightarrow> bool" where
  "truthy None = False"
| "truthy (Some JNull) = False"
| "truthy (Some (JBool b)) = b"
| "truthy (Some (JNum n)) = (n \<noteq> 0)"
| "truthy (Some (JStr s)) = (s \<noteq> [])"
| "truthy (Some _) = True"

fun truthy_value :: "json option \<Rightarrow> json option" where
  \<comment> \<open>the value that passes an \<open>if (value)\<close>, whatever its type\<close>
  "truthy_value v = (if truthy v then v else None)"

text \<open>
  The string a value becomes in \<open>fullContent += content\<close> and in \<open>+\<close> with a string.
  Numbers are integers here, printed in decimal and added exactly. An array joins its
  elements with commas, \<open>null\<close> elements as empty strings. An object is
  \<open>[object Object]\<close>, unless it has a key \<open>toString\<close>: its value is no function, and
  the conversion throws a \<open>TypeError\<close> (\<open>None\<close>).
\<close>

fun join_parts :: "string option list \<Rightarrow> string option" where
  "join_parts [] = Some []"
| "join_parts [part] = part"
| "join_parts (part # parts) =
     (case part of
        None \<Rightarrow> None
      | Some s \<Rightarrow> (case join_parts parts of None \<Rightarrow> None | Some r \<Rightarrow> Some (s @ '','' @ r)))"

fun js_string :: "json \<Rightarrow> string option" where
  "js_string JNull = Some ''null''"
| "js_string (JBool b) = Some (if b then ''true'' else ''false'')"
| "js_string (JNum n) = Some (show_int n)"
| "js_string (JStr s) = Some s"
| "js_string (JArr elements) =
     join_parts (map (\<lambda>e. if e = JNull then Some [] else js_string e) elements)"
| "js_string (JObj members) =
     (if map_of members ''toString'' = None then Some ''[object Object]'' else None)"

fun or_zero :: "json option \<Rightarrow> json" where
  \<comment> \<open>\<open>value || 0\<close>: a truthy value is kept, whatever its type\<close>
  "or_zero None = JNum 0"
| "or_zero (Some v) = (if truthy (Some v) then v else JNum 0)"

fun to_primitive :: "json \<Rightarrow> json option" where
  \<comment> \<open>an array or an object becomes its string; \<open>None\<close> where that throws\<close>
  "to_primitive (JArr elements) = map_option JStr (js_string (JArr elements))"
| "to_primitive (JObj members) = map_option JStr (js_string (JObj members))"
| "to_primitive v = Some v"

fun to_number :: "json \<Rightarrow> int" where
  \<comment> \<open>the number of a primitive that is no string\<close>
  "to_number (JNum n) = n"
| "to_number (JBool b) = (if b then 1 else 0)"
| "to_number _ = 0"

fun is_string :: "json \<Rightarrow> bool" where
  "is_string (JStr s) = True"
| "is_string _ = False"

definition js_plus :: "json \<Rightarrow> json \<Rightarrow> json option" where
  \<comment> \<open>\<open>a + b\<close>: concatenation if either side is a string once primitive, else addition\<close>
  "js_plus a b =
     (case to_primitive a of
        None \<Rightarrow> None
      | Some pa \<Rightarrow>
          (case to_primitive b of
             None \<Rightarrow> None
           | Some pb \<Rightarrow>
               if is_string pa \<or> is_string pb then
                 (case js_string pa of
                    None \<Rightarrow> None
                  | Some sa \<Rightarrow>
                      (case js_string pb of None \<Rightarrow> None | Some sb \<Rightarrow> Some (JStr (sa @ sb))))
               else Some (JNum (to_number pa + to_number pb))))"

text \<open>The fields of a usage are what the record of the upstream holds, numbers or not.\<close>

record Usage =
  inputTokens :: json
  outputTokens :: json
  totalTokens :: json

record ChatResult =
  raw :: json
  parsed :: ParsedResult
  usage :: "Usage option"

text \<open>
  What a streaming call does, in order: it hands a value to the callback (a text, or
  whatever truthy value the upstream sent in its place), it calls \<open>resolve\<close> with a result,
  it calls \<open>reject\<close>. The promise is settled by the first of the last two.
\<close>

datatype stream_event =
    TextDelta json
  | Completion ChatResult
  | Rejection string

record stream_state =
  fullContent :: string
  rawResponse :: json
  trace :: "stream_event list"

definition initial_stream :: stream_state where
  "initial_stream = \<lparr>fullContent = [], rawResponse = JNull, trace = []\<rparr>"

text \<open>What the response's stream emits: a chunk of data, or an error.\<close>

datatype source_event =
    Data string
  | Broken string

fun split_on :: "char \<Rightarrow> string \<Rightarrow> string list" where
  \<comment> \<open>\<open>s.split(sep)\<close> for a separator of one character: never empty\<close>
  "split_on sep [] = [[]]"
| "split_on sep (c # cs) =
     (if c = sep then [] # split_on sep cs
      else (case split_on sep cs of
              [] \<Rightarrow> [[c]]
            | w # ws \<Rightarrow> (c # w) # ws))"

fun deltas :: "stream_event list \<Rightarrow> json list" where
  \<comment> \<open>the values handed to the callback, in order\<close>
  "deltas [] = []"
| "deltas (TextDelta v # events) = v # deltas events"
| "deltas (_ # events) = deltas events"

definition text_of :: "json \<Rightarrow> string" where
  \<comment> \<open>a delivered value as text: a string is itself, another value its string\<close>
  "text_of v = (case js_string v of None \<Rightarrow> [] | Some s \<Rightarrow> s)"

definition delivered_text :: "stream_event list \<Rightarrow> string" where
  \<comment> \<open>the concatenation of the deltas of a trace, in the order of delivery\<close>
  "delivered_text events = concat (map text_of (deltas events))"

subsection \<open>\<open>AnthropicProvider.streamChat\<close>\<close>

text \<open>
  The handler of a chunk, line by line; \<open>parse\<close> is \<open>JSON.parse\<close>, \<open>None\<close> where it throws.
  Reading \<open>parsed.type\<close> of \<open>null\<close> throws as well, and so does appending a value that has
  no string: all into the same empty \<open>catch\<close>, before the callback is called. After
  \<open>resolve\<close> the handler returns: the rest of the chunk is not read.
\<close>

fun anthropic_lines :: "(string \<Rightarrow> json option) \<Rightarrow> string list \<Rightarrow> stream_state \<Rightarrow> stream_state" where
  "anthropic_lines parse [] st = st"
| "anthropic_lines parse (line # lines) st =
     (if prefix ''data: '' line then
        (case parse (drop 6 line) of
           None \<Rightarrow> anthropic_lines parse lines st
         | Some obj \<Rightarrow>
             if obj = JNull then anthropic_lines parse lines (st\<lparr>rawResponse := obj\<rparr>)
             else
               (case (if property obj ''type'' = Some (JStr ''content_block_delta'')
                      then truthy_value (case property obj ''delta'' of
                                           None \<Rightarrow> None
                                         | Some delta \<Rightarrow> property delta ''text'')
                      else None) of
                  Some content_value \<Rightarrow>
                    (case js_string content_value of
                       None \<Rightarrow> anthropic_lines parse lines (st\<lparr>rawResponse := obj\<rparr>)
                     | Some appended \<Rightarrow>
                         anthropic_lines parse lines
                           (st\<lparr>rawResponse := obj,
                               fullContent := fullContent st @ appended,
                               trace := trace st @ [TextDelta content_value]\<rparr>))
                | None \<Rightarrow>
                    if property obj ''type'' = Some (JStr ''message_stop'') then
                      st\<lparr>rawResponse := obj,
                         trace := trace st @
                           [Completion \<lparr>raw = obj, parsed = parseResponse (fullContent st),
                                        usage = None\<rparr>]\<rparr>
                    else anthropic_lines parse lines (st\<lparr>rawResponse := obj\<rparr>)))
      else anthropic_lines parse lines st)"

definition anthropic_on_data :: "(string \<Rightarrow> json option) \<Rightarrow> string \<Rightarrow> stream_state \<Rightarrow> stream_state" where
  "anthropic_on_data parse chunk st = anthropic_lines parse (split_on (CHR 0x0A) chunk) st"

fun anthropic_on :: "(string \<Rightarrow> json option) \<Rightarrow> source_event \<Rightarrow> stream_state \<Rightarrow> stream_state" where
  "anthropic_on parse (Data chunk) st = anthropic_on_data parse chunk st"
| "anthropic_on parse (Broken cause) st = st\<lparr>trace := trace st @ [Rejection cause]\<rparr>"

definition AnthropicProvider_streamChat ::
  "(string \<Rightarrow> json option) \<Rightarrow> string + source_event list \<Rightarrow> stream_state" where
  \<comment> \<open>the request fails (\<open>Inl\<close>), or answers with a stream whose events are handled in turn\<close>
  "AnthropicProvider_streamChat parse response =
     (case response of
        Inl cause \<Rightarrow> initial_stream\<lparr>trace := [Rejection cause]\<rparr>
      | Inr events \<Rightarrow> fold (anthropic_on parse) events initial_stream)"

subsection \<open>\<open>OllamaProvider.streamChat\<close>\<close>

text \<open>
  The same for a line of Ollama. A value that cannot be appended throws before the
  callback and before \<open>done\<close> is read; a total that cannot be added throws before
  \<open>resolve\<close>. Either way the handler goes on with the next line.
\<close>

fun ollama_lines :: "(string \<Rightarrow> json option) \<Rightarrow> string list \<Rightarrow> stream_state \<Rightarrow> stream_state" where
  "ollama_lines parse [] st = st"
| "ollama_lines parse (line # lines) st =
     (case parse line of
        None \<Rightarrow> ollama_lines parse lines st
      | Some obj \<Rightarrow>
          if obj = JNull then ollama_lines parse lines (st\<lparr>rawResponse := obj\<rparr>)
          else
            (case (case truthy_value (case property obj ''message'' of
                                        None \<Rightarrow> None
                                      | Some message \<Rightarrow> property message ''content'') of
                     None \<Rightarrow> Some (st\<lparr>rawResponse := obj\<rparr>)
                   | Some content_value \<Rightarrow>
                       (case js_string content_value of
                          None \<Rightarrow> None
                        | Some appended \<Rightarrow>
                            Some (st\<lparr>rawResponse := obj,
                                     fullContent := fullContent st @ appended,
                                     trace := trace st @ [TextDelta content_value]\<rparr>))) of
               None \<Rightarrow> ollama_lines parse lines (st\<lparr>rawResponse := obj\<rparr>)
             | Some st' \<Rightarrow>
                 if truthy (property obj ''done'') then
                   (case js_plus (or_zero (property obj ''prompt_eval_count''))
                                 (or_zero (property obj ''eval_count'')) of
                      None \<Rightarrow> ollama_lines parse lines st'
                    | Some tokens \<Rightarrow>
                        st'\<lparr>trace := trace st' @
                              [Completion
                                 \<lparr>raw = obj, parsed = parseResponse (fullContent st'),
                                  usage = Some
                                    \<lparr>inputTokens = or_zero (property obj ''prompt_eval_count''),
                                     outputTokens = or_zero (property obj ''eval_count''),
                                     totalTokens = tokens\<rparr>\<rparr>]\<rparr>)
                 else ollama_lines parse lines st'))"

definition ollama_on_data :: "(string \<Rightarrow> json option) \<Rightarrow> string \<Rightarrow> stream_state \<Rightarrow> stream_state" where
  \<comment> \<open>the lines of the chunk that are not blank\<close>
  "ollama_on_data parse chunk st =
     ollama_lines parse (filter (\<lambda>line. trim line \<noteq> []) (split_on (CHR 0x0A) chunk)) st"

fun ollama_on :: "(string \<Rightarrow> json option) \<Rightarrow> source_event \<Rightarrow> stream_state \<Rightarrow> stream_state" where
  "ollama_on parse (Data chunk) st = ollama_on_data parse chunk st"
| "ollama_on parse (Broken cause) st = st\<lparr>trace := trace st @ [Rejection cause]\<rparr>"

definition OllamaProvider_streamChat ::
  "(string \<Rightarrow> json option) \<Rightarrow> string + source_event list \<Rightarrow> stream_state" where
  "OllamaProvider_streamChat parse response =
     (case response of
        Inl cause \<Rightarrow> initial_stream\<lparr>trace := [Rejection cause]\<rparr>
      | Inr events \<Rightarrow> fold (ollama_on parse) events initial_stream)"

subsection \<open>\<open>HuggingFaceProvider.simulateStreaming\<close>\<close>

text \<open>
  The callback acts on a state of the caller's. The wait of 50 ms after each call has no
  other effect.
\<close>

function simulate_loop ::
  "(string \<Rightarrow> 's \<Rightarrow> 's) \<Rightarrow> string list \<Rightarrow> nat \<Rightarrow> string \<times> 's \<Rightarrow> string \<times> 's" where
  "simulate_loop streamCallback words i (currentContent, s) =
     (if i < length words then
        simulate_loop streamCallback words (i + 1)
          (currentContent @ (words ! i @ (if i < length words - 1 then '' '' else [])),
           streamCallback (words ! i @ (if i < length words - 1 then '' '' else [])) s)
      else (currentContent, s))"
  by pat_completeness auto
termination
  by (relation "measure (\<lambda>(streamCallback, words, i, acc). length words - i)") auto

declare simulate_loop.simps [simp del]

definition simulateStreaming :: "string \<Rightarrow> (string \<Rightarrow> 's \<Rightarrow> 's) \<Rightarrow> 's \<Rightarrow> 's" where
  "simulateStreaming content_text streamCallback s =
     snd (simulate_loop streamCallback (split_on CHR '' '' content_text) 0 ([], s))"

definition deliver :: "string \<Rightarrow> string list \<Rightarrow> string list" where
  \<comment> \<open>a delta sink that keeps what it is given, in order\<close>
  "deliver chunk delivered = delivered @ [chunk]"

section \<open>src/llm.ts and \<open>getRetryConfig\<close>\<close>

datatype Role = User | Assistant | System

text \<open>A message of src/types.ts; its field \<open>content\<close> is \<open>message_content\<close> here.\<close>

record ChatMessage =
  role :: Role
  message_content :: string

text \<open>
  The options of a call: the keys src/types.ts names, the three keys of \<open>RetryOptions\<close>
  that \<open>getRetryConfig\<close> reads, and any other key. \<open>None\<close> is a key that is absent.
\<close>

record ChatOptions =
  temperature :: "real option"
  maxTokens :: "int option"
  topP :: "real option"
  topK :: "int option"
  system :: "string option"
  stream :: "bool option"
  retries_option :: "int option"
  retryInterval_option :: "real option"
  retryBackoff_option :: "real option"
  others :: "(string \<times> json) list"

definition no_options :: ChatOptions where
  \<comment> \<open>the default \<open>{}\<close>\<close>
  "no_options =
     \<lparr>temperature = None, maxTokens = None, topP = None, topK = None, system = None,
      stream = None, retries_option = None, retryInterval_option = None,
      retryBackoff_option = None, others = []\<rparr>"

definition getRetryConfig :: "ChatOptions \<Rightarrow> RetryConfig" where
  \<comment> \<open>\<open>??\<close> falls back only when the key is absent\<close>
  "getRetryConfig options =
     \<lparr>retries = (case retries_option options of
                   None \<Rightarrow> retries DEFAULT_RETRY_CONFIG | Some n \<Rightarrow> n),
      retryInterval = (case retryInterval_option options of
                         None \<Rightarrow> retryInterval DEFAULT_RETRY_CONFIG | Some d \<Rightarrow> d),
      retryBackoff = (case retryBackoff_option options of
                        None \<Rightarrow> retryBackoff DEFAULT_RETRY_CONFIG | Some b \<Rightarrow> b)\<rparr>"

definition chat_messages :: "string \<Rightarrow> ChatOptions \<Rightarrow> ChatMessage list" where
  \<comment> \<open>the user message, and \<open>if (options.system) messages.unshift(...)\<close>: an empty string is falsy\<close>
  "chat_messages content_text options =
     (case system options of
        None \<Rightarrow> [\<lparr>role = User, message_content = content_text\<rparr>]
      | Some instructions \<Rightarrow>
          if instructions \<noteq> [] then
            \<lparr>role = System, message_content = instructions\<rparr>
            # [\<lparr>role = User, message_content = content_text\<rparr>]
          else [\<lparr>role = User, message_content = content_text\<rparr>])"

text \<open>
  \<open>Provider.chat\<close> is abstract: a provider takes the model, the messages, the options and
  the optional callback, and is then an operation on the state of the world it talks to.
\<close>

type_synonym ('cb, 's) provider_chat =
  "string \<Rightarrow> ChatMessage list \<Rightarrow> ChatOptions \<Rightarrow> 'cb option \<Rightarrow> ('s, ChatResult) operation"

definition LLM_chat ::
  "string option \<Rightarrow> ('cb, 's) provider_chat \<Rightarrow> string \<Rightarrow> string \<Rightarrow>
   string \<Rightarrow> ChatOptions \<Rightarrow> 'cb option \<Rightarrow> 's \<Rightarrow> (failure + ChatResult) \<times> 's \<times> effect list"
where
  "LLM_chat node_env provider provider_name modelId content_text options streamCallback s =
     executeWithRetry node_env
       (provider modelId (chat_messages content_text options) options streamCallback)
       (getRetryConfig options)
       (Some (provider_name @ '':'' @ modelId)) s"

text \<open>A provider that keeps the messages it is sent and answers with a fixed result.\<close>

definition recorder :: "ChatResult \<Rightarrow> (unit, ChatMessage list list) provider_chat" where
  "recorder answer modelId messages options streamCallback sent = (Inr answer, sent @ [messages])"

section \<open>Notions and inputs of the statements on streaming and dispatch\<close>

subsection \<open>What holds of a stream's trace\<close>

text \<open>The chunks \<open>simulateStreaming\<close> makes of the words of a text.\<close>

definition chunks_of :: "string list \<Rightarrow> string list" where
  "chunks_of words =
     map (\<lambda>i. words ! i @ (if i < length words - 1 then '' '' else [])) [0..<length words]"

text \<open>
  Of the events one call of a handler adds, only the last may be a completion. A state
  carries its deltas when its accumulated text is what was delivered, and every completion
  in its trace carries the parse of what was delivered before it.
\<close>

definition completion_last :: "stream_event list \<Rightarrow> bool" where
  "completion_last events = (\<forall>pre r post. events = pre @ Completion r # post \<longrightarrow> post = [])"

definition emits :: "stream_state \<Rightarrow> stream_state \<Rightarrow> bool" where
  "emits st st' = (\<exists>events. trace st' = trace st @ events \<and> completion_last events)"

definition carries_deltas :: "stream_state \<Rightarrow> bool" where
  "carries_deltas st =
     (fullContent st = delivered_text (trace st)
      \<and> list_all (\<lambda>v. js_string v \<noteq> None) (deltas (trace st))
      \<and> (\<forall>pre r post. trace st = pre @ Completion r # post \<longrightarrow>
             parsed r = parseResponse (delivered_text pre)))"

subsection \<open>Streams of the two framings\<close>

text \<open>
  \<open>JSON.parse\<close> on the payloads used below (it answers as \<open>JSON.parse\<close> does on these
  texts, and fails on every other), for the event stream of Anthropic and for the
  newline-delimited records of Ollama.
\<close>

definition sse_decode :: "string \<Rightarrow> json option" where
  \<open>sse_decode s =
     (if s = ''{"type":"content_block_delta","delta":{"text":"Hello"}}''
      then Some (JObj [(''type'', JStr ''content_block_delta''),
                       (''delta'', JObj [(''text'', JStr ''Hello'')])])
      else if s = ''{"type":"content_block_delta","delta":{"text":" world"}}''
      then Some (JObj [(''type'', JStr ''content_block_delta''),
                       (''delta'', JObj [(''text'', JStr '' world'')])])
      else if s = ''{"type":"content_block_delta","delta":{"text":5}}''
      then Some (JObj [(''type'', JStr ''content_block_delta''),
                       (''delta'', JObj [(''text'', JNum 5)])])
      else if s = ''{"type":"message_stop"}''
      then Some (JObj [(''type'', JStr ''message_stop'')])
      else None)\<close>

definition ndjson_decode :: "string \<Rightarrow> json option" where
  \<open>ndjson_decode s =
     (if s = ''{"message":{"content":"Hello"},"done":false}''
      then Some (JObj [(''message'', JObj [(''content'', JStr ''Hello'')]), (''done'', JBool False)])
      else if s = ''{"message":{"content":" world"},"done":false}''
      then Some (JObj [(''message'', JObj [(''content'', JStr '' world'')]), (''done'', JBool False)])
      else if s = ''{"message":{"content":5},"done":false}''
      then Some (JObj [(''message'', JObj [(''content'', JNum 5)]), (''done'', JBool False)])
      else if s = ''{"message":{"content":""},"done":true,"prompt_eval_count":"7","eval_count":2}''
      then Some (JObj [(''message'', JObj [(''content'', JStr [])]), (''done'', JBool True),
                       (''prompt_eval_count'', JStr ''7''), (''eval_count'', JNum 2)])
      else None)\<close>

definition sse_stop :: json where
  "sse_stop = JObj [(''type'', JStr ''message_stop'')]"

definition ndjson_done :: json where
  "ndjson_done =
     JObj [(''message'', JObj [(''content'', JStr [])]), (''done'', JBool True),
           (''prompt_eval_count'', JStr ''7''), (''eval_count'', JNum 2)]"

definition ndjson_usage :: Usage where
  \<comment> \<open>the counts of \<open>ndjson_done\<close>, one of them a string, and their \<open>+\<close>\<close>
  "ndjson_usage = \<lparr>inputTokens = JStr ''7'', outputTokens = JNum 2, totalTokens = JStr ''72''\<rparr>"

text \<open>
  For each framing: a stream that ends with its terminal event, after a text and a
  number sent as text; a stream that sends a delta in a chunk after the terminal event;
  and a chunk that begins with the terminal event.
\<close>

definition sse_orderly :: "source_event list" where
  \<open>sse_orderly =
     [Data (''event: content_block_delta\<newline>data: {"type":"content_block_delta","delta":{"text":"Hello"}}\<newline>''
            @ ''\<newline>data: {"type":"content_block_delta","delta":{"text":5}}\<newline>''),
      Data ''data: {"type":"message_stop"}\<newline>\<newline>'']\<close>

definition sse_late_delta :: "source_event list" where
  \<open>sse_late_delta =
     [Data ''data: {"type":"content_block_delta","delta":{"text":"Hello"}}\<newline>'',
      Data ''data: {"type":"message_stop"}\<newline>'',
      Data ''data: {"type":"content_block_delta","delta":{"text":" world"}}\<newline>'']\<close>

definition sse_stop_first :: string where
  \<open>sse_stop_first =
     ''data: {"type":"message_stop"}\<newline>data: {"type":"content_block_delta","delta":{"text":"Hello"}}\<newline>''\<close>

definition ndjson_orderly :: "source_event list" where
  \<open>ndjson_orderly =
     [Data ''{"message":{"content":"Hello"},"done":false}\<newline>'',
      Data (''{"message":{"content":5},"done":false}\<newline>''
            @ ''{"message":{"content":""},"done":true,"prompt_eval_count":"7","eval_count":2}\<newline>'')]\<close>

definition ndjson_late_delta :: "source_event list" where
  \<open>ndjson_late_delta =
     [Data ''{"message":{"content":"Hello"},"done":false}\<newline>'',
      Data ''{"message":{"content":""},"done":true,"prompt_eval_count":"7","eval_count":2}\<newline>'',
      Data ''{"message":{"content":" world"},"done":false}\<newline>'']\<close>

definition ndjson_done_first :: string where
  \<open>ndjson_done_first =
     ''{"message":{"content":""},"done":true,"prompt_eval_count":"7","eval_count":2}\<newline>{"message":{"content":"Hello"},"done":false}\<newline>''\<close>

subsection \<open>A call of the dispatcher\<close>

text \<open>Options with a system prompt and three retries, and an answer of a provider.\<close>

definition briefed :: ChatOptions where
  "briefed = no_options\<lparr>system := Some ''Be brief'', retries_option := Some 3\<rparr>"

definition some_answer :: ChatResult where
  "some_answer = \<lparr>raw = JNull, parsed = parseResponse ''ok'', usage = None\<rparr>"

section \<open>The retry engine: proofs\<close>

lemma retry_loop_resolves:
  "int a < retries c + 1 \<Longrightarrow> operation s = (Inr v, s') \<Longrightarrow>
   retry_loop e operation c ctx le a s = (Inr v, s', [Attempted])"
  by (subst retry_loop.simps) simp

lemma retry_loop_exhausted:
  "int a < retries c + 1 \<Longrightarrow> operation s = (Inl m, s') \<Longrightarrow> retries c + 1 \<le> int (a + 1) \<Longrightarrow>
   retry_loop e operation c ctx le a s =
     (Inl (Failed (''Failed after '' @ show_int (retries c) @ '' retries'' @ contextMsg ctx
                   @ '': '' @ m)),
      s', [Attempted])"
  by (subst retry_loop.simps) simp

lemma retry_loop_retries:
  "int a < retries c + 1 \<Longrightarrow> operation s = (Inl m, s') \<Longrightarrow> int (a + 1) < retries c + 1 \<Longrightarrow>
   retry_loop e operation c ctx le a s =
     (case retry_loop e operation c ctx (Some m) (a + 1) s' of
        (r, s'', effects) \<Rightarrow>
          (r, s'',
           Attempted # warning e (a + 1) (retryInterval c * retryBackoff c ^ a) ctx m
           @ Slept (retryInterval c * retryBackoff c ^ a) # effects))"
  by (subst retry_loop.simps) simp

lemma schedule_Nil [simp]: "schedule [] = []"
  by (simp add: schedule_def)

lemma schedule_warning [simp]: "schedule (warning e a d ctx m @ effs) = schedule effs"
  by (simp add: schedule_def warning_def)

lemma schedule_Cons_Attempted [simp]: "schedule (Attempted # effs) = Attempted # schedule effs"
  by (simp add: schedule_def)

lemma schedule_Cons_Slept [simp]: "schedule (Slept d # effs) = Slept d # schedule effs"
  by (simp add: schedule_def)

lemma plan_one [simp]: "plan i b a (Suc 0) = [Attempted]"
  by (simp add: plan_def)

lemma plan_Suc:
  assumes "0 < m"
  shows "plan i b a (Suc m) = Attempted # Slept (i * b ^ a) # plan i b (Suc a) m"
proof -
  from assms obtain k where k: "m = Suc k" by (cases m) auto
  have "[a..<a + Suc k] = a # [Suc a..<Suc a + k]"
    by (simp add: upt_conv_Cons)
  with k show ?thesis by (simp add: plan_def)
qed

lemma first_success_Nil [simp]: "first_success [] = Suc 0"
  by (simp add: first_success_def)

lemma first_success_Inr [simp]: "first_success (Inr v # rs) = Suc 0"
  by (simp add: first_success_def)

lemma first_success_Inl [simp]: "first_success (Inl m # rs) = Suc (first_success rs)"
  by (simp add: first_success_def)

lemma first_success_pos [simp]: "0 < first_success rs"
  by (simp add: first_success_def)

lemma effects_of_retry:
  "effects_of (case run of (r, s'', effects) \<Rightarrow> (r, s'', f effects)) = f (effects_of run)"
  by (cases run) (simp add: effects_of_def)

lemma result_of_retry:
  "result_of (case run of (r, s'', effects) \<Rightarrow> (r, s'', f effects)) = result_of run"
  by (cases run) (simp add: result_of_def)

text \<open>
  With \<open>n + 1\<close> attempts left, the loop attempts until the operation resolves or the
  attempts are spent, and sleeps between two attempts, never after the last one.
\<close>

lemma retry_loop_schedule:
  "nat (retries c + 1) - a = Suc n \<Longrightarrow>
   schedule (effects_of (retry_loop e operation c ctx le a s)) =
     plan (retryInterval c) (retryBackoff c) a
       (min (first_success (outcomes operation s (Suc n))) (Suc n))"
proof (induction n arbitrary: a s le)
  case 0
  then have a: "int a < retries c + 1" "retries c + 1 \<le> int (a + 1)" by linarith+
  obtain r s' where op: "operation s = (r, s')" by (cases "operation s")
  show ?case
  proof (cases r)
    case (Inr v)
    with op a show ?thesis
      by (simp add: retry_loop_resolves effects_of_def)
  next
    case (Inl m)
    with op a show ?thesis
      by (simp add: retry_loop_exhausted effects_of_def)
  qed
next
  case (Suc n)
  then have a: "int a < retries c + 1" "int (a + 1) < retries c + 1"
    and n: "nat (retries c + 1) - (a + 1) = Suc n" by linarith+
  obtain r s' where op: "operation s = (r, s')" by (cases "operation s")
  show ?case
  proof (cases r)
    case (Inr v)
    with op a show ?thesis
      by (simp add: retry_loop_resolves effects_of_def)
  next
    case (Inl m)
    let ?M = "min (first_success (outcomes operation s' (Suc n))) (Suc n)"
    have IH: "schedule (effects_of (retry_loop e operation c ctx (Some m) (a + 1) s')) =
          plan (retryInterval c) (retryBackoff c) (Suc a) ?M"
      using Suc.IH [OF n] by simp
    have M: "0 < ?M" by simp
    have "min (first_success (outcomes operation s (Suc (Suc n)))) (Suc (Suc n)) = Suc ?M"
      using op Inl by simp
    moreover have "schedule (effects_of (retry_loop e operation c ctx le a s)) =
        Attempted # Slept (retryInterval c * retryBackoff c ^ a)
        # plan (retryInterval c) (retryBackoff c) (Suc a) ?M"
      using op Inl a IH by (simp add: retry_loop_retries effects_of_retry)
    ultimately show ?thesis using plan_Suc [OF M] by simp
  qed
qed

lemma attempts_schedule: "attempts (schedule effects) = attempts effects"
  by (induction effects) (auto simp: attempts_def schedule_def)

lemma attempts_plan: "attempts (plan i b a m) = Suc (m - 1)"
  by (induction m arbitrary: a) (simp_all add: plan_def attempts_def filter_concat comp_def)

lemma length_outcomes [simp]: "length (outcomes operation s n) = n"
  by (induction n arbitrary: s) (simp_all split: prod.splits)

lemma first_success_horizon:
  "n \<le> k \<Longrightarrow>
   min (first_success (outcomes operation s k)) n = min (first_success (outcomes operation s n)) n"
proof (induction n arbitrary: k s)
  case 0
  then show ?case by simp
next
  case (Suc n)
  then obtain j where j: "k = Suc j" "n \<le> j" by (cases k) auto
  obtain r s' where op: "operation s = (r, s')" by (cases "operation s")
  show ?case
  proof (cases r)
    case (Inl m)
    with op j Suc.IH [of j s'] show ?thesis by simp
  next
    case (Inr v)
    with op j show ?thesis by simp
  qed
qed

lemma retry_loop_all_fail:
  "nat (retries c + 1) - a = Suc n \<Longrightarrow> outcomes operation s (Suc n) = map Inl ms \<Longrightarrow>
   result_of (retry_loop e operation c ctx le a s) =
     Inl (Failed (''Failed after '' @ show_int (retries c) @ '' retries'' @ contextMsg ctx
                  @ '': '' @ last ms))"
proof (induction n arbitrary: a s le ms)
  case 0
  then have a: "int a < retries c + 1" "retries c + 1 \<le> int (a + 1)" by linarith+
  obtain r s' where op: "operation s = (r, s')" by (cases "operation s")
  with "0.prems"(2) obtain m where "ms = [m]" "r = Inl m" by (cases ms) auto
  with op a show ?case by (simp add: retry_loop_exhausted result_of_def)
next
  case (Suc n)
  then have a: "int a < retries c + 1" "int (a + 1) < retries c + 1"
    and n: "nat (retries c + 1) - (a + 1) = Suc n" by linarith+
  obtain r s' where op: "operation s = (r, s')" by (cases "operation s")
  with Suc.prems(2) obtain m ms' where ms: "ms = m # ms'" "r = Inl m"
    "outcomes operation s' (Suc n) = map Inl ms'" by (cases ms) auto
  from ms(3) have "ms' \<noteq> []" by (auto split: prod.splits)
  with Suc.IH [OF n ms(3), of "Some m"] op a ms show ?case
    by (simp add: retry_loop_retries result_of_retry)
qed

lemma retry_loop_succeeds:
  "nat (retries c + 1) - a = Suc n \<Longrightarrow> length ms \<le> n \<Longrightarrow>
   outcomes operation s (Suc (length ms)) = map Inl ms @ [Inr v] \<Longrightarrow>
   result_of (retry_loop e operation c ctx le a s) = Inr v"
proof (induction ms arbitrary: a s le n)
  case Nil
  then have a: "int a < retries c + 1" by linarith
  obtain r s' where op: "operation s = (r, s')" by (cases "operation s")
  with Nil.prems(3) have "r = Inr v" by simp
  with op a show ?case by (simp add: retry_loop_resolves result_of_def)
next
  case (Cons m ms)
  then obtain k where k: "n = Suc k" "length ms \<le> k" by (cases n) auto
  with Cons.prems have a: "int a < retries c + 1" "int (a + 1) < retries c + 1"
    and n: "nat (retries c + 1) - (a + 1) = Suc k" by linarith+
  obtain r s' where op: "operation s = (r, s')" by (cases "operation s")
  with Cons.prems(3) have r: "r = Inl m"
    "outcomes operation s' (Suc (length ms)) = map Inl ms @ [Inr v]" by auto
  with Cons.IH [OF n k(2) r(2), of "Some m"] op a show ?case
    by (simp add: retry_loop_retries result_of_retry)
qed

lemma first_success_fails_then [simp]: "first_success (map Inl ms @ r) = length ms + first_success r"
  by (induction ms) simp_all

lemma executeWithRetry_schedule:
  assumes "0 \<le> retries c"
  shows "schedule (effects_of (executeWithRetry e operation c ctx s)) =
     plan (retryInterval c) (retryBackoff c) 0
       (min (first_success (outcomes operation s (Suc (nat (retries c))))) (Suc (nat (retries c))))"
proof -
  from assms have "nat (retries c + 1) - 0 = Suc (nat (retries c))" by linarith
  then show ?thesis unfolding executeWithRetry_def by (rule retry_loop_schedule)
qed

lemma executeWithRetry_attempts:
  assumes "0 \<le> retries c"
  shows "attempts (effects_of (executeWithRetry e operation c ctx s)) =
     min (first_success (outcomes operation s (Suc (nat (retries c))))) (Suc (nat (retries c)))"
proof -
  have "attempts (effects_of (executeWithRetry e operation c ctx s)) =
        attempts (schedule (effects_of (executeWithRetry e operation c ctx s)))"
    by (simp add: attempts_schedule)
  also have "\<dots> = Suc (min (first_success (outcomes operation s (Suc (nat (retries c)))))
                       (Suc (nat (retries c))) - 1)"
    by (simp only: executeWithRetry_schedule [OF assms] attempts_plan)
  also have "\<dots> = min (first_success (outcomes operation s (Suc (nat (retries c)))))
                       (Suc (nat (retries c)))"
    by simp
  finally show ?thesis .
qed

text \<open>
  Claim C1. For a policy with \<open>retries \<ge> 0\<close>, \<open>executeWithRetry\<close> invokes the operation
  exactly \<open>min k (retries + 1)\<close> times, where \<open>k\<close> is the index of the first invocation
  that resolves, however far one looks for it (\<open>horizon\<close>). An operation that fails
  \<open>retries\<close> times and then resolves with \<open>v\<close> yields \<open>v\<close> after \<open>retries + 1\<close>
  attempts; an operation that fails \<open>retries + 1\<close> times is attempted \<open>retries + 1\<close>
  times and the call fails.
\<close>

theorem executeWithRetry_attempt_count:
  assumes "0 \<le> retries config" and "nat (retries config) + 1 \<le> horizon"
  shows "attempts (effects_of (executeWithRetry node_env operation config ctx s)) =
           min (first_success (outcomes operation s horizon)) (nat (retries config) + 1)
       \<and> (outcomes operation s (nat (retries config) + 1) = map Inl ms @ [Inr v] \<longrightarrow>
             result_of (executeWithRetry node_env operation config ctx s) = Inr v
           \<and> attempts (effects_of (executeWithRetry node_env operation config ctx s)) =
               nat (retries config) + 1)
       \<and> (outcomes operation s (nat (retries config) + 1) = map Inl ms' \<longrightarrow>
             isl (result_of (executeWithRetry node_env operation config ctx s))
           \<and> attempts (effects_of (executeWithRetry node_env operation config ctx s)) =
               nat (retries config) + 1)"
proof -
  let ?n = "nat (retries config)"
  let ?run = "executeWithRetry node_env operation config ctx s"
  have count: "attempts (effects_of ?run) = min (first_success (outcomes operation s (Suc ?n))) (Suc ?n)"
    by (rule executeWithRetry_attempts [OF assms(1)])
  have left: "nat (retries config + 1) - 0 = Suc ?n" using assms(1) by linarith
  have general: "attempts (effects_of ?run) = min (first_success (outcomes operation s horizon)) (?n + 1)"
    using count first_success_horizon [of "Suc ?n" horizon operation s] assms(2) by simp
  have succeed: "result_of ?run = Inr v \<and> attempts (effects_of ?run) = ?n + 1"
    if out: "outcomes operation s (?n + 1) = map Inl ms @ [Inr v]" for ms v
  proof -
    have "length (outcomes operation s (?n + 1)) = ?n + 1" by (rule length_outcomes)
    then have len: "length ms = ?n" unfolding out by simp
    have o: "outcomes operation s (Suc (length ms)) = map Inl ms @ [Inr v]"
      unfolding len using out by (simp only: Suc_eq_plus1)
    from len have "length ms \<le> ?n" by simp
    with left have "result_of ?run = Inr v"
      unfolding executeWithRetry_def using o by (rule retry_loop_succeeds)
    moreover have "first_success (outcomes operation s (Suc (length ms))) = Suc ?n"
      unfolding o by (simp add: len)
    then have "attempts (effects_of ?run) = ?n + 1"
      unfolding count len by simp
    ultimately show ?thesis ..
  qed
  have exhaust: "isl (result_of ?run) \<and> attempts (effects_of ?run) = ?n + 1"
    if out: "outcomes operation s (?n + 1) = map Inl ms" for ms
  proof -
    have "length (outcomes operation s (?n + 1)) = ?n + 1" by (rule length_outcomes)
    then have len: "length ms = Suc ?n" unfolding out by simp
    have o: "outcomes operation s (Suc ?n) = map Inl ms"
      using out by (simp only: Suc_eq_plus1)
    have "isl (result_of ?run)"
      unfolding executeWithRetry_def retry_loop_all_fail [OF left o] by simp
    moreover have "first_success (map Inl ms) = Suc (length ms)"
      using first_success_fails_then [of ms "[]"] by simp
    then have "first_success (outcomes operation s (Suc ?n)) = Suc (Suc ?n)"
      unfolding o len .
    then have "attempts (effects_of ?run) = ?n + 1"
      unfolding count by simp
    ultimately show ?thesis ..
  qed
  from general succeed exhaust show ?thesis by blast
qed

theorem executeWithRetry_attempt_count_witness:
  "0 \<le> retries test_config \<and> nat (retries test_config) + 1 \<le> 5
   \<and> outcomes flaky 0 (nat (retries test_config) + 1) =
       map Inl [''Temporary failure'', ''Temporary failure''] @ [Inr ''success after retries'']
   \<and> outcomes persistent 0 (nat (retries test_config) + 1) =
       map Inl [''Persistent failure'', ''Persistent failure'', ''Persistent failure'']
   \<and> first_success (outcomes flaky 0 5) = 3
   \<and> attempts (effects_of (executeWithRetry None flaky test_config None 0)) = 3
   \<and> result_of (executeWithRetry None flaky test_config None 0) = Inr ''success after retries''
   \<and> attempts (effects_of (executeWithRetry None persistent test_config None 0)) = 3
   \<and> isl (result_of (executeWithRetry None persistent test_config None 0))"
proof -
  have c: "0 \<le> retries test_config" "nat (retries test_config) + 1 \<le> 5"
    by (simp_all add: test_config_def)
  have n: "nat (retries test_config) + 1 = Suc (Suc (Suc 0))" by (simp add: test_config_def)
  have r: "nat (retries test_config) = 2" by (simp add: test_config_def)
  have f: "outcomes flaky 0 (nat (retries test_config) + 1) =
       map Inl [''Temporary failure'', ''Temporary failure''] @ [Inr ''success after retries'']"
    unfolding n by (simp add: flaky_def)
  have p: "outcomes persistent 0 (nat (retries test_config) + 1) =
       map Inl [''Persistent failure'', ''Persistent failure'', ''Persistent failure'']"
    unfolding n by (simp add: persistent_def)
  have k: "first_success (outcomes flaky 0 5) = 3"
    by (simp add: flaky_def numeral_eq_Suc first_success_def)
  note flaky_run = executeWithRetry_attempt_count [OF c, where operation = flaky and s = 0
         and ms = "[''Temporary failure'', ''Temporary failure'']"
         and v = "''success after retries''" and node_env = None and ctx = None]
  note persistent_run = executeWithRetry_attempt_count [OF c, where operation = persistent
         and s = 0 and node_env = None and ctx = None
         and ms' = "[''Persistent failure'', ''Persistent failure'', ''Persistent failure'']"]
  from flaky_run f k have
    "attempts (effects_of (executeWithRetry None flaky test_config None 0)) = 3"
    "result_of (executeWithRetry None flaky test_config None 0) = Inr ''success after retries''"
    by (simp_all add: r)
  moreover from persistent_run p have
    "attempts (effects_of (executeWithRetry None persistent test_config None 0)) = 3"
    "isl (result_of (executeWithRetry None persistent test_config None 0))"
    by (simp_all add: r)
  ultimately show ?thesis using c f p k by simp
qed

text \<open>
  Claim C2. When every one of the \<open>retries + 1\<close> attempts fails, the call fails with
  the message \<open>Failed after {retries} retries{ (context)}: {cause}\<close>: the number is the
  configured retry count, the parenthesised label is there only when a (non-empty) label
  was given, and the cause is the message of the last attempt's error. With
  \<open>retries = 0\<close> this is the failure of the single attempt.
\<close>

theorem executeWithRetry_exhausted_message:
  assumes "0 \<le> retries config"
    and "outcomes operation s (nat (retries config) + 1) = map Inl ms"
  shows "result_of (executeWithRetry node_env operation config ctx s) =
           Inl (Failed (''Failed after '' @ show_int (retries config) @ '' retries''
                        @ (case ctx of
                             None \<Rightarrow> []
                           | Some label \<Rightarrow> if label = [] then [] else '' ('' @ label @ '')'')
                        @ '': '' @ last ms))
       \<and> attempts (effects_of (executeWithRetry node_env operation config ctx s)) =
           nat (retries config) + 1"
proof -
  let ?n = "nat (retries config)"
  have left: "nat (retries config + 1) - 0 = Suc ?n" using assms(1) by linarith
  have o: "outcomes operation s (Suc ?n) = map Inl ms"
    using assms(2) by (simp only: Suc_eq_plus1)
  have "result_of (executeWithRetry node_env operation config ctx s) =
     Inl (Failed (''Failed after '' @ show_int (retries config) @ '' retries'' @ contextMsg ctx
                  @ '': '' @ last ms))"
    unfolding executeWithRetry_def by (rule retry_loop_all_fail [OF left o])
  moreover have "contextMsg ctx =
      (case ctx of None \<Rightarrow> [] | Some label \<Rightarrow> if label = [] then [] else '' ('' @ label @ '')'')"
    by (simp add: contextMsg_def)
  moreover have "attempts (effects_of (executeWithRetry node_env operation config ctx s)) = ?n + 1"
  proof -
    have "length (outcomes operation s (Suc ?n)) = Suc ?n" by (rule length_outcomes)
    then have len: "length ms = Suc ?n" unfolding o by simp
    have "first_success (map Inl ms) = Suc (length ms)"
      using first_success_fails_then [of ms "[]"] by simp
    then have "first_success (outcomes operation s (Suc ?n)) = Suc (Suc ?n)"
      unfolding o len .
    then show ?thesis
      unfolding executeWithRetry_attempts [OF assms(1)] by simp
  qed
  ultimately show ?thesis by simp
qed

theorem executeWithRetry_exhausted_message_witness:
  "0 \<le> retries test_config
   \<and> outcomes persistent 0 (nat (retries test_config) + 1) =
       map Inl [''Persistent failure'', ''Persistent failure'', ''Persistent failure'']
   \<and> result_of (executeWithRetry None persistent test_config (Some ''test-context'') 0) =
       Inl (Failed ''Failed after 2 retries (test-context): Persistent failure'')
   \<and> attempts (effects_of (executeWithRetry None persistent test_config (Some ''test-context'') 0)) = 3
   \<and> 0 \<le> retries single_attempt_config
   \<and> outcomes persistent 0 (nat (retries single_attempt_config) + 1) = map Inl [''Persistent failure'']
   \<and> result_of (executeWithRetry None persistent single_attempt_config None 0) =
       Inl (Failed ''Failed after 0 retries: Persistent failure'')
   \<and> attempts (effects_of (executeWithRetry None persistent single_attempt_config None 0)) = 1"
proof -
  have c: "0 \<le> retries test_config" by (simp add: test_config_def)
  have p: "outcomes persistent 0 (nat (retries test_config) + 1) =
       map Inl [''Persistent failure'', ''Persistent failure'', ''Persistent failure'']"
    by (simp add: persistent_def test_config_def numeral_eq_Suc)
  have c0: "0 \<le> retries single_attempt_config" by (simp add: single_attempt_config_def)
  have p0: "outcomes persistent 0 (nat (retries single_attempt_config) + 1) =
       map Inl [''Persistent failure'']"
    by (simp add: persistent_def single_attempt_config_def)
  have two: "show_int (retries test_config) = ''2''"
    by (simp add: test_config_def show_int_def show_nat.simps digit_def)
  have zero: "show_int (retries single_attempt_config) = ''0''"
    by (simp add: single_attempt_config_def show_int_def show_nat.simps digit_def)
  from executeWithRetry_exhausted_message [OF c p, of None "Some ''test-context''"] two
  have "result_of (executeWithRetry None persistent test_config (Some ''test-context'') 0) =
       Inl (Failed ''Failed after 2 retries (test-context): Persistent failure'')"
    "attempts (effects_of (executeWithRetry None persistent test_config (Some ''test-context'') 0)) = 3"
    by (simp_all add: test_config_def)
  moreover from executeWithRetry_exhausted_message [OF c0 p0, of None None] zero
  have "result_of (executeWithRetry None persistent single_attempt_config None 0) =
       Inl (Failed ''Failed after 0 retries: Persistent failure'')"
    "attempts (effects_of (executeWithRetry None persistent single_attempt_config None 0)) = 1"
    by (simp_all add: single_attempt_config_def)
  ultimately show ?thesis using c p c0 p0 by simp
qed

lemma delays_schedule: "delays (schedule effects) = delays effects"
proof (induction effects)
  case Nil
  then show ?case by (simp add: delays_def schedule_def)
next
  case (Cons e effects)
  then show ?case by (cases e) (simp_all add: delays_def schedule_def)
qed

lemma delays_plan: "delays (plan i b a m) = map (\<lambda>j. i * b ^ j) [a..<a + (m - 1)]"
proof -
  have "List.map_filter delay_of (concat (map (\<lambda>j. [Slept (f j), Attempted]) js)) = map f js"
    for f :: "nat \<Rightarrow> real" and js
    by (induction js) simp_all
  then show ?thesis by (simp add: delays_def plan_def)
qed

lemma last_plan: "last (plan i b a m) = Attempted"
proof -
  have "last (Attempted # concat (map (\<lambda>j. [Slept (f j), Attempted]) js)) = Attempted"
    for f :: "nat \<Rightarrow> real" and js
    by (induction js rule: rev_induct) simp_all
  then show ?thesis unfolding plan_def .
qed

lemma upt_from_two: "map (\<lambda>i. f (i - 2)) [2..<Suc (Suc m)] = map f [0..<m]"
proof -
  have "[2..<Suc (Suc m)] = map (\<lambda>j. j + 2) [0..<m]"
    using map_add_upt [of 2 m] by simp
  then show ?thesis by (simp add: comp_def)
qed

text \<open>
  Claim C3. With \<open>m\<close> the number of attempts of the run, the run is: attempt 1, and for
  every \<open>i\<close> from 2 to \<open>m\<close> a sleep of \<open>retryInterval * retryBackoff ^ (i - 2)\<close> followed
  by attempt \<open>i\<close>. The delays are a function of the policy alone; the run ends with an
  attempt, never with a sleep; with \<open>retries = 0\<close> it is one attempt and no sleep.
\<close>

theorem executeWithRetry_backoff_schedule:
  assumes "0 \<le> retries config"
  shows "schedule (effects_of (executeWithRetry node_env operation config ctx s)) =
           Attempted #
           concat (map (\<lambda>i. [Slept (retryInterval config * retryBackoff config ^ (i - 2)), Attempted])
                       [2..<Suc (attempts (effects_of (executeWithRetry node_env operation config ctx s)))])
       \<and> delays (effects_of (executeWithRetry node_env operation config ctx s)) =
           map (\<lambda>i. retryInterval config * retryBackoff config ^ (i - 2))
               [2..<Suc (attempts (effects_of (executeWithRetry node_env operation config ctx s)))]
       \<and> last (schedule (effects_of (executeWithRetry node_env operation config ctx s))) = Attempted
       \<and> (retries config = 0 \<longrightarrow>
            schedule (effects_of (executeWithRetry node_env operation config ctx s)) = [Attempted])"
proof -
  let ?run = "executeWithRetry node_env operation config ctx s"
  let ?m = "attempts (effects_of ?run)"
  let ?i = "retryInterval config" and ?b = "retryBackoff config"
  have m: "?m = min (first_success (outcomes operation s (Suc (nat (retries config)))))
                    (Suc (nat (retries config)))"
    by (rule executeWithRetry_attempts [OF assms])
  then have "0 < ?m" by simp
  then obtain k where k: "?m = Suc k" by (cases ?m) auto
  have sched: "schedule (effects_of ?run) = plan ?i ?b 0 ?m"
    unfolding m by (rule executeWithRetry_schedule [OF assms])
  have "plan ?i ?b 0 ?m =
        Attempted # concat (map (\<lambda>i. [Slept (?i * ?b ^ (i - 2)), Attempted]) [2..<Suc ?m])"
    unfolding k plan_def
    using upt_from_two [of "\<lambda>j. [Slept (?i * ?b ^ j), Attempted]" k] by simp
  with sched have first: "schedule (effects_of ?run) =
        Attempted # concat (map (\<lambda>i. [Slept (?i * ?b ^ (i - 2)), Attempted]) [2..<Suc ?m])"
    by simp
  have "delays (effects_of ?run) = delays (plan ?i ?b 0 ?m)"
    using sched delays_schedule [of "effects_of ?run"] by simp
  also have "\<dots> = map (\<lambda>i. ?i * ?b ^ (i - 2)) [2..<Suc ?m]"
    unfolding k delays_plan using upt_from_two [of "\<lambda>j. ?i * ?b ^ j" k] by simp
  finally have second: "delays (effects_of ?run) = map (\<lambda>i. ?i * ?b ^ (i - 2)) [2..<Suc ?m]" .
  have third: "last (schedule (effects_of ?run)) = Attempted"
    unfolding sched by (rule last_plan)
  have fourth: "schedule (effects_of ?run) = [Attempted]" if "retries config = 0"
  proof -
    have "?m \<le> Suc (nat (retries config))" unfolding m by (rule min.cobounded2)
    with that \<open>0 < ?m\<close> have "?m = Suc 0" by simp
    with sched show ?thesis by simp
  qed
  from first second third fourth show ?thesis by blast
qed

theorem executeWithRetry_backoff_schedule_witness:
  "0 \<le> retries test_config
   \<and> schedule (effects_of (executeWithRetry None flaky test_config None 0)) =
       [Attempted, Slept 50, Attempted, Slept 100, Attempted]
   \<and> delays (effects_of (executeWithRetry None flaky test_config None 0)) = [50, 100]
   \<and> retries single_attempt_config = 0
   \<and> schedule (effects_of (executeWithRetry None persistent single_attempt_config None 0)) =
       [Attempted]"
proof -
  have c: "0 \<le> retries test_config" by (simp add: test_config_def)
  have c0: "0 \<le> retries single_attempt_config" "retries single_attempt_config = 0"
    by (simp_all add: single_attempt_config_def)
  have m: "attempts (effects_of (executeWithRetry None flaky test_config None 0)) = 3"
    by (simp add: executeWithRetry_def retry_loop.simps flaky_def test_config_def warning_def
          effects_of_def attempts_def)
  have u: "[2..<Suc 3] = [2, 3]" by (simp add: upt_conv_Cons)
  from executeWithRetry_backoff_schedule [OF c, of None flaky None 0]
  have "schedule (effects_of (executeWithRetry None flaky test_config None 0)) =
       [Attempted, Slept 50, Attempted, Slept 100, Attempted]"
    "delays (effects_of (executeWithRetry None flaky test_config None 0)) = [50, 100]"
    unfolding m u by (simp_all add: test_config_def)
  moreover from executeWithRetry_backoff_schedule [OF c0(1), of None persistent None 0] c0(2)
  have "schedule (effects_of (executeWithRetry None persistent single_attempt_config None 0)) =
       [Attempted]" by blast
  ultimately show ?thesis using c c0 by simp
qed

section \<open>The response parser: proofs\<close>

lemma prefix_within:
  assumes "prefix pat (u @ pat @ b)" and "u \<noteq> []"
  shows "prefix pat (u @ butlast pat)"
proof (cases "pat = []")
  case True
  then show ?thesis by simp
next
  case False
  then have p: "pat = butlast pat @ [last pat]" by simp
  have len: "length pat \<le> length (u @ butlast pat)" using assms(2) False
    by (cases u) simp_all
  from assms(1) have "pat = take (length pat) (u @ pat @ b)"
    by (metis append_eq_conv_conj prefix_def)
  also have "u @ pat @ b = (u @ butlast pat) @ ([last pat] @ b)" using p
    by (metis append.assoc)
  also have "take (length pat) \<dots> = take (length pat) (u @ butlast pat)"
    using len by simp
  finally have "pat = take (length pat) (u @ butlast pat)" .
  then show ?thesis by (metis take_is_prefix)
qed

lemma not_begins_in_Nil: "pat \<noteq> [] \<Longrightarrow> \<not> begins_in pat []"
proof
  assume "pat \<noteq> []" and "begins_in pat []"
  then have "sublist pat (butlast pat)" by (simp add: begins_in_def)
  then have "length pat \<le> length (butlast pat)" by (rule sublist_length_le)
  then have "length pat \<le> length pat - 1" by (simp only: length_butlast)
  moreover from \<open>pat \<noteq> []\<close> have "0 < length pat" by simp
  ultimately show False by arith
qed

lemma not_begins_in_Cons: "\<not> begins_in pat (x # a) \<Longrightarrow> \<not> begins_in pat a"
  by (simp add: begins_in_def sublist_Cons_right)

lemma not_begins_in_prefix:
  assumes "\<not> begins_in pat (x # a)"
  shows "\<not> prefix pat ((x # a) @ pat @ b)"
proof
  assume "prefix pat ((x # a) @ pat @ b)"
  then have "prefix pat ((x # a) @ butlast pat)" by (rule prefix_within) simp
  then have "begins_in pat (x # a)" unfolding begins_in_def by (rule prefix_imp_sublist)
  with assms show False ..
qed

lemma split_at_first:
  assumes "pat \<noteq> []" and "\<not> begins_in pat a"
  shows "split_at pat (a @ pat @ b) = Some (a, b)"
  using assms(2)
proof (induction a)
  case Nil
  with assms(1) show ?case by (cases pat) simp_all
next
  case (Cons x a)
  from Cons.prems have "\<not> prefix pat ((x # a) @ pat @ b)" by (rule not_begins_in_prefix)
  moreover from Cons.prems have "\<not> begins_in pat a" by (rule not_begins_in_Cons)
  ultimately show ?case using Cons.IH by simp
qed

lemma split_at_None: "pat \<noteq> [] \<Longrightarrow> split_at pat s = None \<longleftrightarrow> \<not> sublist pat s"
  by (induction s) (auto simp: sublist_Cons_right)

lemma split_at_Some:
  assumes "split_at pat s = Some (a, b)" and "pat \<noteq> []"
  shows "s = a @ pat @ b \<and> \<not> begins_in pat a"
  using assms(1)
proof (induction s arbitrary: a)
  case Nil
  with assms(2) show ?case by simp
next
  case (Cons x s)
  show ?case
  proof (cases "prefix pat (x # s)")
    case True
    with Cons.prems have a: "a = []" and b: "b = drop (length pat) (x # s)" by simp_all
    from True have "x # s = pat @ drop (length pat) (x # s)"
      by (metis append_eq_conv_conj prefix_def)
    with a b not_begins_in_Nil [OF assms(2)] show ?thesis by simp
  next
    case False
    with Cons.prems obtain a' where s: "split_at pat s = Some (a', b)" and a: "a = x # a'"
      by auto
    from Cons.IH [OF s] have IH: "s = a' @ pat @ b" "\<not> begins_in pat a'" by simp_all
    have "\<not> begins_in pat (x # a')"
    proof
      assume "begins_in pat (x # a')"
      then have "prefix pat (x # a' @ butlast pat) \<or> sublist pat (a' @ butlast pat)"
        by (simp add: begins_in_def sublist_Cons_right)
      with IH(2) have "prefix pat (x # a' @ butlast pat)" by (simp add: begins_in_def)
      then have "prefix pat ((x # a' @ butlast pat) @ [last pat] @ b)"
        using prefix_prefix by blast
      moreover have "(x # a' @ butlast pat) @ [last pat] @ b = x # s"
        using IH(1) assms(2) by simp
      ultimately show False using False by simp
    qed
    with IH(1) a show ?thesis by simp
  qed
qed

subsection \<open>Scanning a text with fenced regions\<close>

lemma not_word_newline: "\<not> is_word (CHR 0x0A)"
  by (simp add: is_word_def)

lemma match_fence_fence:
  assumes "list_all is_word tag" and "\<not> begins_in ''```'' inner"
  shows "match_fence (fence tag inner @ rest) = Some (tag, inner, rest)"
proof -
  let ?body = "inner @ ''```'' @ rest"
  have d: "drop 3 (fence tag inner @ rest) = tag @ CHR 0x0A # ?body"
    by (simp add: fence_def)
  from assms(1) have w: "\<forall>c\<in>set tag. is_word c" by (simp add: list_all_iff)
  then have dw: "dropWhile is_word (tag @ CHR 0x0A # ?body) = CHR 0x0A # ?body"
    by (simp add: dropWhile_append3 not_word_newline)
  from w have tw: "takeWhile is_word (tag @ CHR 0x0A # ?body) = tag"
    by (simp add: takeWhile_tail not_word_newline)
  have sp: "split_at ''```'' ?body = Some (inner, rest)"
    by (rule split_at_first [OF _ assms(2)]) simp
  have p: "prefix ''```'' (fence tag inner @ rest)" by (simp add: fence_def)
  show ?thesis unfolding match_fence_def d dw tw using p sp by simp
qed

lemma match_fence_None: "\<not> prefix ''```'' s \<Longrightarrow> match_fence s = None"
  by (simp add: match_fence_def)

lemma exec_all_fence:
  assumes "list_all is_word tag" and "\<not> begins_in ''```'' inner"
  shows "exec_all (fence tag inner @ r) = (tag, inner) # exec_all r"
    and "replace_all (fence tag inner @ r) = replace_all r"
proof -
  obtain c cs where f: "fence tag inner @ r = c # cs" by (simp add: fence_def)
  from match_fence_fence [OF assms, of r] have m: "match_fence (c # cs) = Some (tag, inner, r)"
    unfolding f .
  show "exec_all (fence tag inner @ r) = (tag, inner) # exec_all r" unfolding f using m by simp
  show "replace_all (fence tag inner @ r) = replace_all r" unfolding f using m by simp
qed

lemma match_fence_Some:
  assumes "match_fence s = Some (tag, inner, rest)"
  shows "s = fence tag inner @ rest \<and> list_all is_word tag \<and> \<not> begins_in ''```'' inner"
proof -
  from assms have p: "prefix ''```'' s"
    by (simp add: match_fence_def split: if_splits)
  with assms obtain body where
    d: "dropWhile is_word (drop 3 s) = CHR 0x0A # body"
    and sp: "split_at ''```'' body = Some (inner, rest)"
    and t: "tag = takeWhile is_word (drop 3 s)"
    by (auto simp: match_fence_def split: list.splits if_splits option.splits)
  from p have "s = ''```'' @ drop 3 s"
    by (metis append_eq_conv_conj prefix_def length_Cons list.size(3) numeral_3_eq_3)
  also have "drop 3 s = takeWhile is_word (drop 3 s) @ dropWhile is_word (drop 3 s)" by simp
  also have "\<dots> = tag @ CHR 0x0A # body" using d t by simp
  finally have s: "s = ''```'' @ tag @ CHR 0x0A # body" .
  from split_at_Some [OF sp] have b: "body = inner @ ''```'' @ rest" and i: "\<not> begins_in ''```'' inner"
    by simp_all
  have "list_all is_word tag" unfolding t list_all_iff by (auto dest: set_takeWhileD)
  with s b i show ?thesis by (simp add: fence_def)
qed

lemma opens_fence_match: "opens_fence s \<Longrightarrow> match_fence s \<noteq> None"
proof -
  assume "opens_fence s"
  then obtain tag inner rest where w: "list_all is_word tag" and s: "s = fence tag inner @ rest"
    by (auto simp: opens_fence_def)
  let ?body = "inner @ ''```'' @ rest"
  have d: "drop 3 s = tag @ CHR 0x0A # ?body" by (simp add: s fence_def)
  from w have w': "\<forall>c\<in>set tag. is_word c" by (simp add: list_all_iff)
  then have dw: "dropWhile is_word (tag @ CHR 0x0A # ?body) = CHR 0x0A # ?body"
    by (simp add: dropWhile_append3 not_word_newline)
  have "sublist ''```'' ?body" by (rule sublist_appendI)
  then have "split_at ''```'' ?body \<noteq> None" by (simp add: split_at_None)
  moreover have "prefix ''```'' s" by (simp add: s fence_def)
  ultimately show ?thesis unfolding match_fence_def d dw by auto
qed

lemma match_fence_opens: "match_fence s \<noteq> None \<Longrightarrow> opens_fence s"
proof -
  assume "match_fence s \<noteq> None"
  then obtain tag inner rest where "match_fence s = Some (tag, inner, rest)" by auto
  from match_fence_Some [OF this] show ?thesis unfolding opens_fence_def by blast
qed

lemma quiet_Nil [simp]: "quiet [] following"
  by (simp add: quiet_def)

lemma quiet_Cons:
  "quiet (c # gap) following \<longleftrightarrow> \<not> opens_fence (c # gap @ following) \<and> quiet gap following"
proof -
  have "(\<forall>k<Suc (length gap). P k) \<longleftrightarrow> P 0 \<and> (\<forall>k<length gap. P (Suc k))" for P
    by (metis less_Suc_eq_0_disj)
  then show ?thesis by (simp add: quiet_def)
qed

lemma quiet_scan:
  "quiet gap following \<Longrightarrow>
   exec_all (gap @ following) = exec_all following
   \<and> replace_all (gap @ following) = gap @ replace_all following"
proof (induction gap)
  case Nil
  show ?case by simp
next
  case (Cons c gap)
  then have "\<not> opens_fence (c # gap @ following)" and q: "quiet gap following"
    by (simp_all add: quiet_Cons)
  then have "match_fence (c # gap @ following) = None"
    using match_fence_opens by blast
  with Cons.IH [OF q] show ?case by simp
qed

lemma render_well_fenced:
  assumes "well_fenced regions tail"
  shows "exec_all (render regions tail) = map (\<lambda>(gap, tag, inner). (tag, inner)) regions
       \<and> replace_all (render regions tail) = concat (map fst regions) @ tail"
  using assms
proof (induction regions)
  case Nil
  then show ?case using quiet_scan [of tail "[]"] by simp
next
  case (Cons region regions)
  obtain gap tag inner where region: "region = (gap, tag, inner)" by (cases region)
  let ?r = "render regions tail"
  from Cons.prems have g: "quiet gap (fence tag inner @ ?r)" and t: "list_all is_word tag"
    and i: "\<not> begins_in ''```'' inner" and rest: "well_fenced regions tail"
    by (simp_all add: region)
  from quiet_scan [OF g] exec_all_fence [OF t i, of ?r] Cons.IH [OF rest]
  show ?case by (simp add: region)
qed

lemma quiet_if_no_marker:
  assumes "\<not> begins_in ''```'' gap" and "following = [] \<or> prefix ''```'' following"
  shows "quiet gap following"
  using assms(1)
proof (induction gap)
  case Nil
  show ?case by simp
next
  case (Cons c gap)
  have "\<not> prefix ''```'' (c # gap @ following)"
  proof (cases "following = []")
    case True
    from Cons.prems have "\<not> prefix ''```'' ((c # gap) @ ''``'')"
      unfolding begins_in_def using prefix_imp_sublist by auto
    then show ?thesis using True by (metis append_Nil2 append_Cons prefix_prefix)
  next
    case False
    with assms(2) obtain r where "following = ''```'' @ r" by (auto simp: prefix_def)
    with not_begins_in_prefix [OF Cons.prems, of r] show ?thesis by simp
  qed
  then have "\<not> opens_fence (c # gap @ following)"
    using opens_fence_match match_fence_None by blast
  moreover from Cons.prems have "\<not> begins_in ''```'' gap" by (rule not_begins_in_Cons)
  ultimately show ?case using Cons.IH by (simp add: quiet_Cons)
qed

lemma render_complete: "\<exists>regions tail. input = render regions tail \<and> well_fenced regions tail"
proof (induction input rule: exec_all.induct)
  case 1
  have "[] = render [] [] \<and> well_fenced [] []" by simp
  then show ?case by blast
next
  case (2 c cs)
  show ?case
  proof (cases "match_fence (c # cs)")
    case None
    then obtain regions tail where r: "cs = render regions tail" and w: "well_fenced regions tail"
      using "2.IH"(1) by blast
    from None have o: "\<not> opens_fence (c # cs)" using opens_fence_match by blast
    show ?thesis
    proof (cases regions)
      case Nil
      with r w o have "c # cs = render [] (c # tail) \<and> well_fenced [] (c # tail)"
        by (simp add: quiet_Cons)
      then show ?thesis by blast
    next
      case (Cons region regions')
      obtain gap tag inner where region: "region = (gap, tag, inner)" by (cases region)
      with Cons r w o
      have "c # cs = render ((c # gap, tag, inner) # regions') tail
            \<and> well_fenced ((c # gap, tag, inner) # regions') tail"
        by (simp add: quiet_Cons)
      then show ?thesis by blast
    qed
  next
    case (Some m)
    obtain tag inner rest where m: "m = (tag, inner, rest)" by (cases m)
    with Some have ms: "match_fence (c # cs) = Some (tag, inner, rest)" by simp
    from "2.IH"(2) [OF ms refl refl] obtain regions tail
      where r: "rest = render regions tail" and w: "well_fenced regions tail" by blast
    from match_fence_Some [OF ms] r w
    have "c # cs = render (([], tag, inner) # regions) tail
          \<and> well_fenced (([], tag, inner) # regions) tail"
      by simp
    then show ?thesis by blast
  qed
qed

subsection \<open>Regions between tags\<close>

lemma match_pattern_first_region:
  assumes "fst p \<noteq> []" and "snd p \<noteq> []" and "first_region p s a i b"
  shows "match_pattern p s = Some (a, i, b)"
proof -
  from assms(3) have s: "s = a @ fst p @ (i @ snd p @ b)"
    and a: "\<not> begins_in (fst p) a" and i: "\<not> begins_in (snd p) i"
    by (simp_all add: first_region_def)
  have "split_at (fst p) s = Some (a, i @ snd p @ b)"
    unfolding s by (rule split_at_first [OF assms(1) a])
  moreover have "split_at (snd p) (i @ snd p @ b) = Some (i, b)"
    by (rule split_at_first [OF assms(2) i])
  ultimately show ?thesis by (simp add: match_pattern_def)
qed

lemma match_pattern_Some:
  assumes "fst p \<noteq> []" and "snd p \<noteq> []" and "match_pattern p s = Some (a, i, b)"
  shows "first_region p s a i b"
proof -
  from assms(3) obtain r where o: "split_at (fst p) s = Some (a, r)"
    and c: "split_at (snd p) r = Some (i, b)"
    by (auto simp: match_pattern_def split: option.splits)
  from split_at_Some [OF o assms(1)] split_at_Some [OF c assms(2)]
  show ?thesis by (simp add: first_region_def)
qed

lemma first_region_has_region: "first_region p s a i b \<Longrightarrow> has_region p s"
  by (auto simp: first_region_def has_region_def)

lemma has_region_match_pattern:
  assumes "fst p \<noteq> []" and "snd p \<noteq> []" and "has_region p s"
  shows "match_pattern p s \<noteq> None"
proof -
  let ?o = "fst p" and ?c = "snd p"
  from assms(3) obtain a i b where s: "s = a @ ?o @ i @ ?c @ b"
    by (auto simp: has_region_def)
  then have "sublist ?o s" by simp
  with assms(1) obtain a' r where o: "split_at ?o s = Some (a', r)"
    using split_at_None [of ?o s] by (cases "split_at ?o s") auto
  from split_at_Some [OF o assms(1)] have s': "s = a' @ ?o @ r" and first: "\<not> begins_in ?o a'"
    by simp_all
  have "a' @ (?o @ r) = s" by (rule s' [symmetric])
  also have "s = a @ (?o @ i @ ?c @ b)" by (rule s)
  finally have "a' @ (?o @ r) = a @ (?o @ i @ ?c @ b)" .
  then have "\<exists>w. a' = a @ w \<and> w @ (?o @ r) = ?o @ i @ ?c @ b
                \<or> a' @ w = a \<and> ?o @ r = w @ (?o @ i @ ?c @ b)"
    by (simp only: append_eq_append_conv2)
  then consider w where "a' = a @ w" "w @ ?o @ r = ?o @ i @ ?c @ b"
    | w where "a' @ w = a" "?o @ r = w @ ?o @ i @ ?c @ b"
    by blast
  then have "\<exists>w. ?o @ r = w @ ?o @ i @ ?c @ b"
  proof cases
    case 1
    show ?thesis
    proof (cases "w = []")
      case True
      with 1 show ?thesis by auto
    next
      case False
      from 1(2) have "prefix ?o (w @ ?o @ r)" by simp
      then have "prefix ?o (w @ butlast ?o)" using False by (rule prefix_within)
      then have "sublist ?o (a @ w @ butlast ?o)"
        by (meson prefix_imp_sublist sublist_append)
      with 1(1) first show ?thesis by (simp add: begins_in_def)
    qed
  next
    case 2
    then show ?thesis by auto
  qed
  then obtain w where w: "?o @ r = w @ ?o @ i @ ?c @ b" ..
  have "r = drop (length ?o) (?o @ r)" by simp
  also have "\<dots> = drop (length ?o) ((w @ ?o) @ i @ ?c @ b)" using w by simp
  also have "\<dots> = drop (length ?o) (w @ ?o) @ i @ ?c @ b" by simp
  finally have "sublist ?c r" by (metis sublist_appendI append.assoc)
  with assms(2) have "split_at ?c r \<noteq> None" by (simp add: split_at_None)
  with o show ?thesis by (auto simp: match_pattern_def)
qed

lemma cut_replace_first:
  assumes "fst p \<noteq> []" and "snd p \<noteq> []"
  shows "cut p s s' \<longleftrightarrow> s' = replace_first p s"
proof (cases "match_pattern p s")
  case None
  have no: "\<not> has_region p s"
  proof
    assume "has_region p s"
    with assms have "match_pattern p s \<noteq> None" by (rule has_region_match_pattern)
    with None show False by simp
  qed
  then have "\<not> (\<exists>a i b. first_region p s a i b \<and> s' = a @ b)"
    using first_region_has_region by blast
  moreover from None have "replace_first p s = s" by (simp add: replace_first_def)
  ultimately show ?thesis using no unfolding cut_def by metis
next
  case (Some m)
  obtain a i b where m: "m = (a, i, b)" by (cases m)
  with Some have fr: "first_region p s a i b" using match_pattern_Some [OF assms] by simp
  from Some m have r: "replace_first p s = a @ b" by (simp add: replace_first_def)
  have u: "a' @ b' = a @ b" if "first_region p s a' i' b'" for a' i' b'
    using match_pattern_first_region [OF assms that] Some m by simp
  show ?thesis
  proof
    assume "cut p s s'"
    with first_region_has_region [OF fr] obtain a' i' b'
      where "first_region p s a' i' b'" "s' = a' @ b'"
      unfolding cut_def by blast
    with u r show "s' = replace_first p s" by simp
  next
    assume "s' = replace_first p s"
    with r fr show "cut p s s'" unfolding cut_def by blast
  qed
qed

lemma first_thinking_None:
  assumes "\<forall>p\<in>set ps. fst p \<noteq> [] \<and> snd p \<noteq> []" and "\<forall>p\<in>set ps. \<not> has_region p s"
  shows "first_thinking ps s = None"
  using assms
proof (induction ps)
  case Nil
  show ?case by simp
next
  case (Cons p ps)
  then have "match_pattern p s = None"
    using match_pattern_Some [of p s] first_region_has_region [of p s]
    by (cases "match_pattern p s") auto
  with Cons show ?case by simp
qed

lemma first_thinking_Some:
  assumes "\<forall>p\<in>set ps. fst p \<noteq> [] \<and> snd p \<noteq> []"
    and "k < length ps" and "\<forall>j<k. \<not> has_region (ps ! j) s"
    and "first_region (ps ! k) s a i b"
  shows "first_thinking ps s = Some (trim i)"
  using assms
proof (induction ps arbitrary: k)
  case Nil
  then show ?case by simp
next
  case (Cons p ps)
  show ?case
  proof (cases k)
    case 0
    with Cons.prems have "match_pattern p s = Some (a, i, b)"
      using match_pattern_first_region [of p s a i b] by simp
    then show ?thesis by simp
  next
    case (Suc k')
    with Cons.prems have "\<not> has_region p s" by auto
    then have "match_pattern p s = None"
      using match_pattern_Some [of p s] first_region_has_region [of p s] Cons.prems(1)
      by (cases "match_pattern p s") auto
    moreover have "first_thinking ps s = Some (trim i)"
      using Cons.prems Suc by (intro Cons.IH [of k']) auto
    ultimately show ?thesis by simp
  qed
qed

lemma thinkingPatterns_tags: "\<forall>p\<in>set thinkingPatterns. fst p \<noteq> [] \<and> snd p \<noteq> []"
  by (simp add: thinkingPatterns_def)

subsection \<open>The claims on \<open>parseResponse\<close>\<close>

lemmas parser_eval =
  parseResponse_def match_fence_def is_word_def is_space_def trim_def thinkingPatterns_def
  match_pattern_def replace_first_def

text \<open>
  Claim C4, as amended. Every input text is made, in left-to-right order, of its fenced
  regions (a triple-backtick marker, a language tag of word characters that a line feed
  follows directly, an inner text closed by the next marker) and of the text around them
  in which no such region begins. For a text so made of \<open>N\<close> regions, \<open>parseResponse\<close>
  returns exactly \<open>N\<close> code blocks, in the order of the regions, each with the tag (or
  \<open>text\<close> for an empty tag) as its language and the trimmed inner text as its code. The
  fixture yields the one block and the content of the scenario.
\<close>

theorem parseResponse_codeBlocks:
  "(\<exists>regions tail. input = render regions tail \<and> well_fenced regions tail)
   \<and> (well_fenced regions tail \<longrightarrow>
        codeBlocks (parseResponse (render regions tail)) =
          map (\<lambda>(gap, tag, inner).
                 \<lparr>language = (if tag = [] then ''text'' else tag), code = trim inner\<rparr>) regions
        \<and> length (codeBlocks (parseResponse (render regions tail))) = length regions)
   \<and> codeBlocks (parseResponse fixture) =
       [\<lparr>language = ''python'', code = ''def add(a,b):\<newline>  return a+b''\<rparr>]
   \<and> content (parseResponse fixture) = ''Hello\<newline>\<newline>Done''"
proof -
  have blocks: "codeBlocks (parseResponse (render regions tail)) =
           map (\<lambda>(gap, tag, inner).
                  \<lparr>language = (if tag = [] then ''text'' else tag), code = trim inner\<rparr>) regions"
    if "well_fenced regions tail"
    using render_well_fenced [OF that]
    by (simp add: parseResponse_def case_prod_unfold comp_def)
  then have count: "length (codeBlocks (parseResponse (render regions tail))) = length regions"
    if "well_fenced regions tail"
    using that by simp
  have "codeBlocks (parseResponse fixture) =
           [\<lparr>language = ''python'', code = ''def add(a,b):\<newline>  return a+b''\<rparr>]"
    by (simp add: parser_eval fixture_def)
  moreover have "content (parseResponse fixture) = ''Hello\<newline>\<newline>Done''"
    by (simp add: parser_eval fixture_def)
  ultimately show ?thesis using render_complete [of input] blocks count by blast
qed

text \<open>Two regions, the second without a tag, and an inline backtick between them.\<close>

lemma two_blocks_well_fenced: "well_fenced two_blocks ''\<newline>Done''"
proof -
  have "quiet ''Hello\<newline>'' following" if "prefix ''```'' following" for following
    using that by (intro quiet_if_no_marker) (simp_all add: begins_in_def sublist_code)
  moreover have "quiet '' and `x` then\<newline>'' following" if "prefix ''```'' following" for following
    using that by (intro quiet_if_no_marker) (simp_all add: begins_in_def sublist_code)
  moreover have "quiet ''\<newline>Done'' []"
    by (intro quiet_if_no_marker) (simp_all add: begins_in_def sublist_code)
  ultimately show ?thesis
    by (simp add: two_blocks_def fence_def begins_in_def sublist_code is_word_def)
qed

theorem parseResponse_codeBlocks_witness:
  "well_fenced two_blocks ''\<newline>Done''
   \<and> codeBlocks (parseResponse (render two_blocks ''\<newline>Done'')) =
       [\<lparr>language = ''python'', code = ''def add(a,b):\<newline>  return a+b''\<rparr>,
        \<lparr>language = ''text'', code = ''ls -l''\<rparr>]"
proof -
  note w = two_blocks_well_fenced
  from parseResponse_codeBlocks [where regions = two_blocks and tail = "''\<newline>Done''"] w
  have "codeBlocks (parseResponse (render two_blocks ''\<newline>Done'')) =
          map (\<lambda>(gap, tag, inner).
                 \<lparr>language = (if tag = [] then ''text'' else tag), code = trim inner\<rparr>) two_blocks"
    by blast
  with w show ?thesis by (simp add: two_blocks_def is_space_def trim_def)
qed

text \<open>
  Claim C4 as stated fails: a text with one fenced region in the specification's sense,
  whose lines end with CR LF, gives no code block, since the tag is not followed by a
  line feed.
\<close>

theorem parseResponse_codeBlocks_counterexample:
  "codeBlocks (parseResponse
     (spec_render [(''Hello'' @ CRLF, ''python'', CRLF @ ''print(1)'' @ CRLF)] (CRLF @ ''Done''))) = []"
  by (simp add: parser_eval spec_fence_def CRLF_def)

text \<open>
  Claim C5, as amended. Every input text is made of its fenced regions and of the text
  around them, as in C4; the content is the text around the regions (every fenced region
  removed), then, for each of the three thinking patterns in turn, without the first
  region of that pattern in what is left (all three patterns are applied, not only the
  one that supplied the thinking), then trimmed. The chain of cuts exists and every such
  chain ends in the content.
\<close>

theorem parseResponse_content:
  "(\<exists>regions tail. input = render regions tail \<and> well_fenced regions tail)
   \<and> (well_fenced regions tail \<longrightarrow>
        (\<exists>s1 s2 s3.
            cut (''<thinking>'', ''</thinking>'') (concat (map fst regions) @ tail) s1
          \<and> cut (''<thought>'', ''</thought>'') s1 s2
          \<and> cut (''[thinking]'', ''[/thinking]'') s2 s3
          \<and> content (parseResponse (render regions tail)) = trim s3)
        \<and> (\<forall>s1 s2 s3.
            cut (''<thinking>'', ''</thinking>'') (concat (map fst regions) @ tail) s1
          \<and> cut (''<thought>'', ''</thought>'') s1 s2
          \<and> cut (''[thinking]'', ''[/thinking]'') s2 s3
          \<longrightarrow> content (parseResponse (render regions tail)) = trim s3))"
proof -
  let ?P1 = "(''<thinking>'', ''</thinking>'')" and ?P2 = "(''<thought>'', ''</thought>'')"
    and ?P3 = "(''[thinking]'', ''[/thinking]'')"
  let ?S = "concat (map fst regions) @ tail"
  have c1: "cut ?P1 s s' \<longleftrightarrow> s' = replace_first ?P1 s" for s s'
    by (rule cut_replace_first) simp_all
  have c2: "cut ?P2 s s' \<longleftrightarrow> s' = replace_first ?P2 s" for s s'
    by (rule cut_replace_first) simp_all
  have c3: "cut ?P3 s s' \<longleftrightarrow> s' = replace_first ?P3 s" for s s'
    by (rule cut_replace_first) simp_all
  have "content (parseResponse (render regions tail)) =
        trim (replace_first ?P3 (replace_first ?P2 (replace_first ?P1 ?S)))"
    if "well_fenced regions tail"
    using render_well_fenced [OF that] by (simp add: parseResponse_def thinkingPatterns_def)
  then show ?thesis unfolding c1 c2 c3 using render_complete [of input] by simp
qed

lemma thoughtful_well_fenced: "well_fenced thoughtful ''\<newline>Done<thought>hm</thought> ''"
proof -
  have "quiet ''<thinking>plan</thinking>Hello\<newline>'' following"
    if "prefix ''```'' following" for following
    using that by (intro quiet_if_no_marker) (simp_all add: begins_in_def sublist_code)
  moreover have "quiet ''\<newline>Done<thought>hm</thought> '' []"
    by (intro quiet_if_no_marker) (simp_all add: begins_in_def sublist_code)
  ultimately show ?thesis
    by (simp add: thoughtful_def fence_def begins_in_def sublist_code is_word_def)
qed

theorem parseResponse_content_witness:
  "well_fenced thoughtful ''\<newline>Done<thought>hm</thought> ''
   \<and> content (parseResponse (render thoughtful ''\<newline>Done<thought>hm</thought> '')) =
       ''Hello\<newline>\<newline>Done''"
proof -
  let ?tail = "''\<newline>Done<thought>hm</thought> ''"
  note w = thoughtful_well_fenced
  have c1: "cut (''<thinking>'', ''</thinking>'') (concat (map fst thoughtful) @ ?tail)
              ''Hello\<newline>\<newline>Done<thought>hm</thought> ''"
    by (subst cut_replace_first)
       (simp_all add: thoughtful_def replace_first_def match_pattern_def)
  have c2: "cut (''<thought>'', ''</thought>'') ''Hello\<newline>\<newline>Done<thought>hm</thought> ''
              ''Hello\<newline>\<newline>Done ''"
    by (subst cut_replace_first) (simp_all add: replace_first_def match_pattern_def)
  have c3: "cut (''[thinking]'', ''[/thinking]'') ''Hello\<newline>\<newline>Done '' ''Hello\<newline>\<newline>Done ''"
    by (subst cut_replace_first) (simp_all add: replace_first_def match_pattern_def)
  from parseResponse_content [where regions = thoughtful and tail = ?tail] w c1 c2 c3
  have "content (parseResponse (render thoughtful ?tail)) = trim ''Hello\<newline>\<newline>Done ''"
    by blast
  with w show ?thesis by (simp add: trim_def is_space_def)
qed

text \<open>
  Claim C5 as stated fails: with a region of the first pattern and a region of the second,
  both are removed from the content, where the specification removes only the first.
\<close>

theorem parseResponse_content_counterexample:
  "content (parseResponse ''<thinking>a</thinking><thought>b</thought>x'') = ''x''
   \<and> spec_content ''<thinking>a</thinking><thought>b</thought>x'' = ''<thought>b</thought>x''"
  by (simp add: parser_eval spec_content_def)

text \<open>
  Claim C6, as amended. The thinking is decided on the input itself, its fenced regions
  included: if no pattern has a region in the input the thinking is absent; otherwise the
  first pattern, in the fixed order, that has a region supplies the trimmed inner text of
  its first region, and nothing else is extracted.
\<close>

theorem parseResponse_thinking:
  "((\<forall>p\<in>set thinkingPatterns. \<not> has_region p input) \<longrightarrow>
      thinking (parseResponse input) = None)
   \<and> (k < length thinkingPatterns
        \<and> (\<forall>j<k. \<not> has_region (thinkingPatterns ! j) input)
        \<and> first_region (thinkingPatterns ! k) input a i b \<longrightarrow>
      thinking (parseResponse input) = Some (trim i))"
  using first_thinking_None [OF thinkingPatterns_tags, of input]
    first_thinking_Some [OF thinkingPatterns_tags, of k input a i b]
  by (simp add: parseResponse_def)

theorem parseResponse_thinking_witness:
  "\<not> has_region (thinkingPatterns ! 0) ''no tags <thinking> here''
   \<and> \<not> has_region (thinkingPatterns ! 1) ''no tags <thinking> here''
   \<and> \<not> has_region (thinkingPatterns ! 2) ''no tags <thinking> here''
   \<and> thinking (parseResponse ''no tags <thinking> here'') = None
   \<and> 1 < length thinkingPatterns
   \<and> \<not> has_region (thinkingPatterns ! 0) ''```\<newline><thought> b </thought>\<newline>```[thinking]c[/thinking]''
   \<and> first_region (thinkingPatterns ! 1) ''```\<newline><thought> b </thought>\<newline>```[thinking]c[/thinking]''
        ''```\<newline>'' '' b '' ''\<newline>```[thinking]c[/thinking]''
   \<and> thinking (parseResponse ''```\<newline><thought> b </thought>\<newline>```[thinking]c[/thinking]'') = Some ''b''"
proof -
  let ?plain = "''no tags <thinking> here''"
  let ?tagged = "''```\<newline><thought> b </thought>\<newline>```[thinking]c[/thinking]''"
  have none: "\<not> has_region p s" if "fst p \<noteq> []" "snd p \<noteq> []" "match_pattern p s = None" for p s
    using has_region_match_pattern [OF that(1,2)] that(3) by blast
  have p0: "\<not> has_region (thinkingPatterns ! 0) ?plain"
    by (rule none) (simp_all add: thinkingPatterns_def match_pattern_def)
  have p1: "\<not> has_region (thinkingPatterns ! 1) ?plain"
    by (rule none) (simp_all add: thinkingPatterns_def match_pattern_def)
  have p2: "\<not> has_region (thinkingPatterns ! 2) ?plain"
    by (rule none) (simp_all add: thinkingPatterns_def match_pattern_def)
  from p0 p1 p2 have h1: "\<forall>p\<in>set thinkingPatterns. \<not> has_region p ?plain"
    by (simp add: thinkingPatterns_def)
  have h2: "1 < length thinkingPatterns" by (simp add: thinkingPatterns_def)
  have t0: "\<not> has_region (thinkingPatterns ! 0) ?tagged"
    by (rule none) (simp_all add: thinkingPatterns_def match_pattern_def)
  then have h3: "\<forall>j<1. \<not> has_region (thinkingPatterns ! j) ?tagged" by simp
  have h4: "first_region (thinkingPatterns ! 1) ?tagged ''```\<newline>'' '' b '' ''\<newline>```[thinking]c[/thinking]''"
    by (simp add: first_region_def thinkingPatterns_def begins_in_def sublist_code)
  from parseResponse_thinking [where input = ?plain] h1
  have r1: "thinking (parseResponse ?plain) = None" by blast
  from parseResponse_thinking [where input = ?tagged and k = 1 and a = "''```\<newline>''"
      and i = "'' b ''" and b = "''\<newline>```[thinking]c[/thinking]''"]
    h2 h3 h4
  have "thinking (parseResponse ?tagged) = Some (trim '' b '')" by blast
  then have r2: "thinking (parseResponse ?tagged) = Some ''b''"
    by (simp add: trim_def is_space_def)
  from p0 p1 p2 r1 h2 t0 h4 r2 show ?thesis by blast
qed

text \<open>
  Claim C6 as stated fails: a thinking region inside a fenced region is extracted, although
  the text with its fenced regions stripped has none.
\<close>

theorem parseResponse_thinking_counterexample:
  "thinking (parseResponse ''```\<newline><thinking>x</thinking>\<newline>```'') = Some ''x''
   \<and> spec_thinking ''```\<newline><thinking>x</thinking>\<newline>```'' = None"
  by (simp add: parser_eval spec_thinking_def)

text \<open>
  Claim C10. \<open>parseResponse\<close> is a total function (its two scans terminate), and the
  result's \<open>toolCalls\<close> is the empty array for every input.
\<close>

theorem parseResponse_toolCalls: "toolCalls (parseResponse input) = Some []"
  by (simp add: parseResponse_def)

section \<open>Streaming: proofs\<close>

subsection \<open>Simulated streaming\<close>

lemma split_on_not_Nil [simp]: "split_on sep s \<noteq> []"
  by (induction s) (auto split: list.splits)

lemma simulate_loop_fold:
  "simulate_loop cb words i (cc, s) =
     (cc @ concat (map (\<lambda>i. words ! i @ (if i < length words - 1 then '' '' else [])) [i..<length words]),
      fold cb (map (\<lambda>i. words ! i @ (if i < length words - 1 then '' '' else [])) [i..<length words]) s)"
proof (induction "length words - i" arbitrary: i cc s)
  case 0
  then show ?case by (subst simulate_loop.simps) simp
next
  case (Suc n)
  then have i: "i < length words" and n: "n = length words - Suc i" by simp_all
  from i have u: "[i..<length words] = i # [Suc i..<length words]" by (simp add: upt_conv_Cons)
  note IH = Suc.hyps(1) [OF n]
  show ?case
    by (subst simulate_loop.simps) (simp add: i IH u)
qed

lemma simulateStreaming_chunks:
  "simulateStreaming content_text cb s = fold cb (chunks_of (split_on CHR '' '' content_text)) s"
  by (simp add: simulateStreaming_def simulate_loop_fold chunks_of_def)

lemma fold_deliver: "fold deliver chunks delivered = delivered @ chunks"
  by (induction chunks arbitrary: delivered) (simp_all add: deliver_def)

lemma chunks_of_single [simp]: "chunks_of [w] = [w]"
  by (simp add: chunks_of_def)

lemma chunks_of_Cons [simp]: "chunks_of (w # w' # ws) = (w @ '' '') # chunks_of (w' # ws)"
proof -
  let ?f = "\<lambda>ws i. ws ! i @ (if i < length ws - 1 then '' '' else [])"
  have "[0..<length (w # w' # ws)] = 0 # map Suc [0..<length (w' # ws)]"
    by (simp add: upt_conv_Cons map_Suc_upt del: upt_Suc)
  then have "chunks_of (w # w' # ws) = ?f (w # w' # ws) 0 # map (?f (w # w' # ws) \<circ> Suc) [0..<length (w' # ws)]"
    unfolding chunks_of_def by (simp del: upt_Suc)
  moreover have "(?f (w # w' # ws) \<circ> Suc) = ?f (w' # ws)" by (auto simp: fun_eq_iff)
  ultimately show ?thesis by (simp add: chunks_of_def del: upt_Suc)
qed

lemma chunks_of_not_Nil: "words \<noteq> [] \<Longrightarrow> chunks_of words \<noteq> []"
  by (simp add: chunks_of_def)

lemma concat_chunks_of_first:
  "concat (chunks_of ((c # w) # ws)) = c # concat (chunks_of (w # ws))"
  by (cases ws) simp_all

lemma concat_chunks_of_split: "concat (chunks_of (split_on CHR '' '' s)) = s"
proof (induction s)
  case Nil
  show ?case by simp
next
  case (Cons c s)
  obtain w ws where split: "split_on CHR '' '' s = w # ws"
    by (cases "split_on CHR '' '' s") simp_all
  show ?case
  proof (cases "c = CHR '' ''")
    case True
    with split Cons.IH show ?thesis by simp
  next
    case False
    with split Cons.IH show ?thesis by (simp add: concat_chunks_of_first)
  qed
qed

text \<open>
  Claim C8. For every source text, \<open>simulateStreaming\<close> calls the sink at least once, and
  the chunks it delivers, concatenated in the order of delivery, are the source text:
  nothing is dropped, repeated or reordered, whatever the spaces of the text. Any sink is
  called with the same chunks in the same order.
\<close>

theorem simulateStreaming_delivers_source:
  "simulateStreaming content_text deliver [] \<noteq> []
   \<and> concat (simulateStreaming content_text deliver []) = content_text
   \<and> simulateStreaming content_text streamCallback s =
       fold streamCallback (simulateStreaming content_text deliver []) s"
  by (simp add: simulateStreaming_chunks fold_deliver concat_chunks_of_split chunks_of_not_Nil)

subsection \<open>The stream handlers\<close>

lemma deltas_append [simp]: "deltas (xs @ ys) = deltas xs @ deltas ys"
  by (induction xs rule: deltas.induct) simp_all

lemma delivered_text_append [simp]:
  "delivered_text (xs @ ys) = delivered_text xs @ delivered_text ys"
  by (simp add: delivered_text_def)

lemma delivered_text_Nil [simp]: "delivered_text [] = []"
  by (simp add: delivered_text_def)

lemma delivered_text_delta [simp]:
  "js_string v = Some appended \<Longrightarrow> delivered_text [TextDelta v] = appended"
  by (simp add: delivered_text_def text_of_def)

lemma delivered_text_other [simp]:
  "delivered_text [Completion r] = []" "delivered_text [Rejection cause] = []"
  by (simp_all add: delivered_text_def)

lemma js_string_examples:
  "js_string (JArr [JNum 1, JNull, JStr ''a'', JArr [JBool True]]) = Some ''1,,a,true''"
  "js_string (JObj [(''a'', JNum 1)]) = Some ''[object Object]''"
  "js_string (JArr [JObj [(''toString'', JNull)]]) = None"
  "js_plus (JStr ''7'') (JNum 2) = Some (JStr ''72'')"
  "js_plus (JNum 7) (JBool True) = Some (JNum 8)"
  "js_plus (JArr []) (JNum 2) = Some (JStr ''2'')"
  by (simp_all add: js_plus_def show_int_def show_nat.simps digit_def)

text \<open>
  A record of Ollama whose content cannot be appended: nothing is delivered, and its
  \<open>done\<close> is never read.
\<close>

lemma unappendable_content_skipped:
  "trace (ollama_lines
            (\<lambda>line. Some (JObj [(''message'', JObj [(''content'', JObj [(''toString'', JNum 1)])]),
                                  (''done'', JBool True)]))
            [''x''] initial_stream) = []"
  by (simp add: initial_stream_def)

lemma snoc_eq_split:
  assumes "xs @ [e] = pre @ c # post"
  shows "(post = [] \<and> e = c \<and> xs = pre) \<or> (\<exists>post'. post = post' @ [e] \<and> xs = pre @ c # post')"
proof (cases post rule: rev_cases)
  case Nil
  with assms show ?thesis by simp
next
  case (snoc post' x)
  with assms have "xs @ [e] = (pre @ c # post') @ [x]" by simp
  then have "xs = pre @ c # post'" "e = x" by simp_all
  with snoc show ?thesis by simp
qed

lemma carries_raw: "carries_deltas st \<Longrightarrow> carries_deltas (st\<lparr>rawResponse := j\<rparr>)"
  by (simp add: carries_deltas_def)

lemma carries_delta:
  assumes "carries_deltas st" and "js_string v = Some appended"
  shows "carries_deltas (st\<lparr>rawResponse := j, fullContent := fullContent st @ appended,
                             trace := trace st @ [TextDelta v]\<rparr>)"
proof -
  have "parsed r = parseResponse (delivered_text pre)"
    if "trace st @ [TextDelta v] = pre @ Completion r # post" for pre r post
    using snoc_eq_split [OF that] assms(1) by (auto simp: carries_deltas_def)
  with assms show ?thesis by (simp add: carries_deltas_def)
qed

lemma carries_rejection:
  assumes "carries_deltas st"
  shows "carries_deltas (st\<lparr>trace := trace st @ [Rejection cause]\<rparr>)"
proof -
  have "parsed r = parseResponse (delivered_text pre)"
    if "trace st @ [Rejection cause] = pre @ Completion r # post" for pre r post
    using snoc_eq_split [OF that] assms by (auto simp: carries_deltas_def)
  with assms show ?thesis by (simp add: carries_deltas_def)
qed

lemma carries_completion:
  assumes "carries_deltas st" and "parsed result = parseResponse (fullContent st)"
  shows "carries_deltas (st\<lparr>rawResponse := j, trace := trace st @ [Completion result]\<rparr>)"
proof -
  have "parsed r = parseResponse (delivered_text pre)"
    if "trace st @ [Completion result] = pre @ Completion r # post" for pre r post
    using snoc_eq_split [OF that] assms by (auto simp: carries_deltas_def)
  with assms show ?thesis by (simp add: carries_deltas_def)
qed

lemma carries_completion':
  assumes "carries_deltas st" and "parsed result = parseResponse (fullContent st)"
  shows "carries_deltas (st\<lparr>trace := trace st @ [Completion result]\<rparr>)"
  using carries_completion [OF assms, of "rawResponse st"] by simp

lemma carries_delta_completion:
  assumes "carries_deltas st" and "js_string v = Some appended"
    and "parsed result = parseResponse (fullContent st @ appended)"
  shows "carries_deltas (st\<lparr>rawResponse := j, fullContent := fullContent st @ appended,
                             trace := trace st @ [TextDelta v, Completion result]\<rparr>)"
proof -
  let ?st = "st\<lparr>rawResponse := j, fullContent := fullContent st @ appended,
                 trace := trace st @ [TextDelta v]\<rparr>"
  have "carries_deltas ?st" using assms(1,2) by (rule carries_delta)
  moreover have "parsed result = parseResponse (fullContent ?st)" using assms(3) by simp
  ultimately have "carries_deltas (?st\<lparr>trace := trace ?st @ [Completion result]\<rparr>)"
    by (rule carries_completion')
  then show ?thesis by simp
qed

lemma anthropic_lines_carries:
  "carries_deltas st \<Longrightarrow> carries_deltas (anthropic_lines parse lines st)"
proof (induction lines arbitrary: st)
  case Nil
  then show ?case by simp
next
  case (Cons line lines)
  show ?case
    using Cons.prems
    by (auto split: option.splits
          intro!: Cons.IH carries_raw carries_delta carries_completion)
qed

lemma ollama_lines_carries:
  "carries_deltas st \<Longrightarrow> carries_deltas (ollama_lines parse lines st)"
proof (induction lines arbitrary: st)
  case Nil
  then show ?case by simp
next
  case (Cons line lines)
  show ?case
    using Cons.prems
    by (auto split: option.splits
          intro!: Cons.IH carries_raw carries_delta carries_completion carries_delta_completion)
qed

lemma carries_initial: "carries_deltas initial_stream"
  by (simp add: carries_deltas_def initial_stream_def)

lemma carries_failed_request: "carries_deltas (initial_stream\<lparr>trace := [Rejection cause]\<rparr>)"
  using carries_rejection [OF carries_initial, of cause] by (simp add: initial_stream_def)

lemma fold_carries:
  assumes "\<And>e st. carries_deltas st \<Longrightarrow> carries_deltas (f e st)"
  shows "carries_deltas st \<Longrightarrow> carries_deltas (fold f events st)"
  by (induction events arbitrary: st) (simp_all add: assms)

lemma anthropic_on_carries: "carries_deltas st \<Longrightarrow> carries_deltas (anthropic_on parse e st)"
  by (cases e) (simp_all add: anthropic_on_data_def anthropic_lines_carries carries_rejection)

lemma ollama_on_carries: "carries_deltas st \<Longrightarrow> carries_deltas (ollama_on parse e st)"
  by (cases e) (simp_all add: ollama_on_data_def ollama_lines_carries carries_rejection)

lemma AnthropicProvider_streamChat_carries:
  "carries_deltas (AnthropicProvider_streamChat parse response)"
  by (cases response)
     (simp_all add: AnthropicProvider_streamChat_def carries_failed_request
        fold_carries [OF anthropic_on_carries] carries_initial)

lemma OllamaProvider_streamChat_carries:
  "carries_deltas (OllamaProvider_streamChat parse response)"
  by (cases response)
     (simp_all add: OllamaProvider_streamChat_def carries_failed_request
        fold_carries [OF ollama_on_carries] carries_initial)

lemma completion_last_Nil: "completion_last []"
  by (simp add: completion_last_def)

lemma completion_last_single: "completion_last [e]"
  by (auto simp: completion_last_def Cons_eq_append_conv)

lemma completion_last_delta:
  assumes "completion_last events"
  shows "completion_last (TextDelta t # events)"
  unfolding completion_last_def
proof (intro allI impI)
  fix pre r post
  assume "TextDelta t # events = pre @ Completion r # post"
  then obtain pre' where "events = pre' @ Completion r # post"
    by (cases pre) auto
  with assms show "post = []" unfolding completion_last_def by blast
qed

lemma emits_refl: "trace st' = trace st \<Longrightarrow> emits st st'"
  by (simp add: emits_def completion_last_Nil)

lemma emits_one: "trace st' = trace st @ [e] \<Longrightarrow> emits st st'"
  by (auto simp: emits_def completion_last_single)

lemma emits_after_delta:
  assumes "trace st' = trace st @ [TextDelta t]" and "emits st' st''"
  shows "emits st st''"
proof -
  from assms(2) obtain events where "trace st'' = trace st' @ events" "completion_last events"
    by (auto simp: emits_def)
  with assms(1) have "trace st'' = trace st @ TextDelta t # events"
    "completion_last (TextDelta t # events)"
    by (simp_all add: completion_last_delta)
  then show ?thesis unfolding emits_def by blast
qed

lemma emits_after_silence:
  assumes "trace st' = trace st" and "emits st' st''"
  shows "emits st st''"
  using assms by (simp add: emits_def)

lemma emits_completion:
  "emits st (st\<lparr>rawResponse := j, trace := trace st @ [Completion r]\<rparr>)"
  by (rule emits_one) simp

lemma emits_delta_completion:
  "emits st (st\<lparr>rawResponse := j, fullContent := appended,
                trace := trace st @ [TextDelta t, Completion r]\<rparr>)"
proof -
  have "completion_last [Completion r]" by (rule completion_last_single)
  then have "completion_last [TextDelta t, Completion r]" by (rule completion_last_delta)
  then show ?thesis unfolding emits_def by auto
qed

lemma anthropic_lines_emits: "emits st (anthropic_lines parse lines st)"
proof (induction lines arbitrary: st)
  case Nil
  show ?case by (simp add: emits_refl)
next
  case (Cons line lines)
  have silent: "emits st (anthropic_lines parse lines st')" if "trace st' = trace st" for st'
    using that Cons.IH by (rule emits_after_silence)
  have delta: "emits st (anthropic_lines parse lines st')"
    if "\<exists>v. trace st' = trace st @ [TextDelta v]" for st'
    using that Cons.IH by (auto intro: emits_after_delta)
  show ?case
    by (auto split: option.splits simp: silent delta emits_completion)
qed

lemma ollama_lines_emits: "emits st (ollama_lines parse lines st)"
proof (induction lines arbitrary: st)
  case Nil
  show ?case by (simp add: emits_refl)
next
  case (Cons line lines)
  have silent: "emits st (ollama_lines parse lines st')" if "trace st' = trace st" for st'
    using that Cons.IH by (rule emits_after_silence)
  have delta: "emits st (ollama_lines parse lines st')"
    if "\<exists>v. trace st' = trace st @ [TextDelta v]" for st'
    using that Cons.IH by (auto intro: emits_after_delta)
  show ?case
    by (auto split: option.splits simp: silent delta emits_completion emits_delta_completion)
qed

lemma emits_completion_last:
  assumes "emits st st'" and "trace st' = trace st @ pre @ Completion r # post"
  shows "post = []"
proof -
  from assms(1) obtain events where "trace st' = trace st @ events" "completion_last events"
    by (auto simp: emits_def)
  with assms(2) have "events = pre @ Completion r # post" by simp
  with \<open>completion_last events\<close> show ?thesis unfolding completion_last_def by blast
qed

text \<open>
  Claim C7, as amended. For the stream handling of the Anthropic and of the Ollama
  provider, whatever the upstream sends: whenever \<open>resolve\<close> is called, the result it
  carries is the parse of the concatenation, in delivery order, of all the deltas
  delivered until then (a delivered value that is no string counts as the string it
  becomes when appended, and every delivered value has one); and within the chunk that
  carries the terminal event nothing is delivered after it.
\<close>

theorem streamChat_completion_carries_deltas:
  "(trace (AnthropicProvider_streamChat parse response) = pre @ Completion r # post \<longrightarrow>
      parsed r = parseResponse (delivered_text pre))
   \<and> list_all (\<lambda>v. js_string v \<noteq> None)
        (deltas (trace (AnthropicProvider_streamChat parse response)))
   \<and> (trace (anthropic_on_data parse chunk st) = trace st @ pre' @ Completion r' # post' \<longrightarrow>
      post' = [])
   \<and> (trace (OllamaProvider_streamChat parse response) = pre @ Completion r # post \<longrightarrow>
      parsed r = parseResponse (delivered_text pre))
   \<and> list_all (\<lambda>v. js_string v \<noteq> None)
        (deltas (trace (OllamaProvider_streamChat parse response)))
   \<and> (trace (ollama_on_data parse chunk st) = trace st @ pre' @ Completion r' # post' \<longrightarrow>
      post' = [])"
proof -
  have a: "carries_deltas (AnthropicProvider_streamChat parse response)"
    by (rule AnthropicProvider_streamChat_carries)
  then have a1: "trace (AnthropicProvider_streamChat parse response) = pre @ Completion r # post \<longrightarrow>
      parsed r = parseResponse (delivered_text pre)"
    unfolding carries_deltas_def by blast
  from a have a3: "list_all (\<lambda>v. js_string v \<noteq> None)
        (deltas (trace (AnthropicProvider_streamChat parse response)))"
    unfolding carries_deltas_def by blast
  have o: "carries_deltas (OllamaProvider_streamChat parse response)"
    by (rule OllamaProvider_streamChat_carries)
  then have o1: "trace (OllamaProvider_streamChat parse response) = pre @ Completion r # post \<longrightarrow>
      parsed r = parseResponse (delivered_text pre)"
    unfolding carries_deltas_def by blast
  from o have o3: "list_all (\<lambda>v. js_string v \<noteq> None)
        (deltas (trace (OllamaProvider_streamChat parse response)))"
    unfolding carries_deltas_def by blast
  have a2: "trace (anthropic_on_data parse chunk st) = trace st @ pre' @ Completion r' # post' \<longrightarrow>
      post' = []"
    unfolding anthropic_on_data_def using emits_completion_last [OF anthropic_lines_emits] by blast
  have o2: "trace (ollama_on_data parse chunk st) = trace st @ pre' @ Completion r' # post' \<longrightarrow>
      post' = []"
    unfolding ollama_on_data_def using emits_completion_last [OF ollama_lines_emits] by blast
  from a1 a2 a3 o1 o2 o3 show ?thesis by blast
qed

lemmas stream_eval =
  AnthropicProvider_streamChat_def OllamaProvider_streamChat_def initial_stream_def
  anthropic_on_data_def ollama_on_data_def sse_decode_def ndjson_decode_def sse_stop_def
  ndjson_done_def ndjson_usage_def trim_def is_space_def js_plus_def show_int_def
  show_nat.simps digit_def

lemma sse_orderly_trace:
  "trace (AnthropicProvider_streamChat sse_decode (Inr sse_orderly)) =
     [TextDelta (JStr ''Hello''), TextDelta (JNum 5)] @
     Completion \<lparr>raw = sse_stop, parsed = parseResponse ''Hello5'', usage = None\<rparr> # []"
  by (simp add: stream_eval sse_orderly_def)

lemma sse_stop_first_trace:
  "trace (anthropic_on_data sse_decode sse_stop_first initial_stream) =
     trace initial_stream @ [] @
     Completion \<lparr>raw = sse_stop, parsed = parseResponse [], usage = None\<rparr> # []"
  by (simp add: stream_eval sse_stop_first_def)

lemma ndjson_orderly_trace:
  "trace (OllamaProvider_streamChat ndjson_decode (Inr ndjson_orderly)) =
     [TextDelta (JStr ''Hello''), TextDelta (JNum 5)] @
     Completion \<lparr>raw = ndjson_done, parsed = parseResponse ''Hello5'',
                  usage = Some ndjson_usage\<rparr> # []"
  by (simp add: stream_eval ndjson_orderly_def)

lemma ndjson_done_first_trace:
  "trace (ollama_on_data ndjson_decode ndjson_done_first initial_stream) =
     trace initial_stream @ [] @
     Completion \<lparr>raw = ndjson_done, parsed = parseResponse [],
                  usage = Some ndjson_usage\<rparr> # []"
  by (simp add: stream_eval ndjson_done_first_def)

lemma orderly_delivered: "delivered_text [TextDelta (JStr ''Hello''), TextDelta (JNum 5)] = ''Hello5''"
  by (simp add: delivered_text_def text_of_def show_int_def show_nat.simps digit_def)

text \<open>
  A text and a number sent as text, then the terminal event; and a chunk whose first line
  is terminal.
\<close>

theorem streamChat_completion_carries_deltas_witness:
  "trace (AnthropicProvider_streamChat sse_decode (Inr sse_orderly)) =
     [TextDelta (JStr ''Hello''), TextDelta (JNum 5)] @
     Completion \<lparr>raw = sse_stop, parsed = parseResponse ''Hello5'', usage = None\<rparr> # []
   \<and> delivered_text [TextDelta (JStr ''Hello''), TextDelta (JNum 5)] = ''Hello5''
   \<and> parsed \<lparr>raw = sse_stop, parsed = parseResponse ''Hello5'', usage = None\<rparr> =
       parseResponse (delivered_text [TextDelta (JStr ''Hello''), TextDelta (JNum 5)])
   \<and> trace (anthropic_on_data sse_decode sse_stop_first initial_stream) =
       trace initial_stream @ [] @
       Completion \<lparr>raw = sse_stop, parsed = parseResponse [], usage = None\<rparr> # []
   \<and> trace (OllamaProvider_streamChat ndjson_decode (Inr ndjson_orderly)) =
       [TextDelta (JStr ''Hello''), TextDelta (JNum 5)] @
       Completion \<lparr>raw = ndjson_done, parsed = parseResponse ''Hello5'',
                    usage = Some ndjson_usage\<rparr> # []
   \<and> trace (ollama_on_data ndjson_decode ndjson_done_first initial_stream) =
       trace initial_stream @ [] @
       Completion \<lparr>raw = ndjson_done, parsed = parseResponse [],
                    usage = Some ndjson_usage\<rparr> # []"
proof -
  note anthropic = streamChat_completion_carries_deltas
    [where parse = sse_decode and response = "Inr sse_orderly"
       and pre = "[TextDelta (JStr ''Hello''), TextDelta (JNum 5)]"
       and r = "\<lparr>raw = sse_stop, parsed = parseResponse ''Hello5'', usage = None\<rparr>"
       and post = "[]" and chunk = sse_stop_first and st = initial_stream]
  from anthropic sse_orderly_trace
  have "parsed \<lparr>raw = sse_stop, parsed = parseResponse ''Hello5'', usage = None\<rparr> =
       parseResponse (delivered_text [TextDelta (JStr ''Hello''), TextDelta (JNum 5)])"
    by blast
  with sse_orderly_trace sse_stop_first_trace ndjson_orderly_trace ndjson_done_first_trace
    orderly_delivered
  show ?thesis by blast
qed

text \<open>
  Claim C7 as stated fails: the handler stays attached after \<open>resolve\<close>, so a delta that
  arrives in a later chunk is delivered after the terminal event, and the deltas
  delivered are then more than the text that was parsed.
\<close>

theorem streamChat_completion_carries_deltas_counterexample:
  "trace (AnthropicProvider_streamChat sse_decode (Inr sse_late_delta)) =
     [TextDelta (JStr ''Hello''),
      Completion \<lparr>raw = sse_stop, parsed = parseResponse ''Hello'', usage = None\<rparr>,
      TextDelta (JStr '' world'')]
   \<and> delivered_text (trace (AnthropicProvider_streamChat sse_decode (Inr sse_late_delta))) =
       ''Hello world''
   \<and> trace (OllamaProvider_streamChat ndjson_decode (Inr ndjson_late_delta)) =
     [TextDelta (JStr ''Hello''),
      Completion \<lparr>raw = ndjson_done, parsed = parseResponse ''Hello'',
                   usage = Some ndjson_usage\<rparr>,
      TextDelta (JStr '' world'')]
   \<and> delivered_text (trace (OllamaProvider_streamChat ndjson_decode (Inr ndjson_late_delta))) =
       ''Hello world''"
  by (simp add: stream_eval sse_late_delta_def ndjson_late_delta_def delivered_text_def
        text_of_def)

section \<open>The dispatcher: proofs\<close>

text \<open>
  Claim C9, as amended. \<open>chat\<close> runs the provider under \<open>executeWithRetry\<close> with: the
  messages made of a system message carrying \<open>options.system\<close>, there if and only if
  \<open>options.system\<close> is present and not the empty string, followed by one user message
  carrying the text; the policy whose three fields are those of the options, each falling
  back to its default (1, 1000, 2) when absent; the label \<open>provider:model\<close>. A provider
  that records what it is sent receives exactly these messages.
\<close>

theorem LLM_chat_messages_and_policy:
  "LLM_chat node_env provider provider_name modelId content_text options streamCallback s =
     executeWithRetry node_env
       (provider modelId
          ((case system options of
              None \<Rightarrow> []
            | Some instructions \<Rightarrow>
                if instructions = [] then []
                else [\<lparr>role = System, message_content = instructions\<rparr>])
           @ [\<lparr>role = User, message_content = content_text\<rparr>])
          options streamCallback)
       \<lparr>retries = (case retries_option options of None \<Rightarrow> 1 | Some n \<Rightarrow> n),
        retryInterval = (case retryInterval_option options of None \<Rightarrow> 1000 | Some d \<Rightarrow> d),
        retryBackoff = (case retryBackoff_option options of None \<Rightarrow> 2 | Some b \<Rightarrow> b)\<rparr>
       (Some (provider_name @ '':'' @ modelId)) s
   \<and> (0 \<le> (case retries_option options of None \<Rightarrow> 1 | Some n \<Rightarrow> n) \<longrightarrow>
        fst (snd (LLM_chat node_env (recorder answer) provider_name modelId content_text options
                    None [])) =
          [(case system options of
              None \<Rightarrow> []
            | Some instructions \<Rightarrow>
                if instructions = [] then []
                else [\<lparr>role = System, message_content = instructions\<rparr>])
           @ [\<lparr>role = User, message_content = content_text\<rparr>]])"
proof -
  have m: "chat_messages content_text options =
      (case system options of
              None \<Rightarrow> []
            | Some instructions \<Rightarrow>
                if instructions = [] then []
                else [\<lparr>role = System, message_content = instructions\<rparr>])
           @ [\<lparr>role = User, message_content = content_text\<rparr>]"
    by (simp add: chat_messages_def split: option.splits)
  have c: "getRetryConfig options =
       \<lparr>retries = (case retries_option options of None \<Rightarrow> 1 | Some n \<Rightarrow> n),
        retryInterval = (case retryInterval_option options of None \<Rightarrow> 1000 | Some d \<Rightarrow> d),
        retryBackoff = (case retryBackoff_option options of None \<Rightarrow> 2 | Some b \<Rightarrow> b)\<rparr>"
    by (simp add: getRetryConfig_def DEFAULT_RETRY_CONFIG_def split: option.splits)
  have first: "LLM_chat node_env provider provider_name modelId content_text options streamCallback s =
     executeWithRetry node_env
       (provider modelId
          ((case system options of
              None \<Rightarrow> []
            | Some instructions \<Rightarrow>
                if instructions = [] then []
                else [\<lparr>role = System, message_content = instructions\<rparr>])
           @ [\<lparr>role = User, message_content = content_text\<rparr>])
          options streamCallback)
       \<lparr>retries = (case retries_option options of None \<Rightarrow> 1 | Some n \<Rightarrow> n),
        retryInterval = (case retryInterval_option options of None \<Rightarrow> 1000 | Some d \<Rightarrow> d),
        retryBackoff = (case retryBackoff_option options of None \<Rightarrow> 2 | Some b \<Rightarrow> b)\<rparr>
       (Some (provider_name @ '':'' @ modelId)) s"
    unfolding LLM_chat_def m c ..
  have second: "fst (snd (LLM_chat node_env (recorder answer) provider_name modelId content_text
                    options None [])) = [chat_messages content_text options]"
    if "0 \<le> (case retries_option options of None \<Rightarrow> 1 | Some n \<Rightarrow> n)"
  proof -
    from that have "int 0 < retries (getRetryConfig options) + 1" unfolding c by simp
    then show ?thesis
      unfolding LLM_chat_def executeWithRetry_def
      by (subst retry_loop_resolves [where v = answer and s' = "[chat_messages content_text options]"])
         (simp_all add: recorder_def)
  qed
  from first second show ?thesis unfolding m by blast
qed

theorem LLM_chat_messages_and_policy_witness:
  "0 \<le> (case retries_option briefed of None \<Rightarrow> 1 | Some n \<Rightarrow> n)
   \<and> fst (snd (LLM_chat None (recorder some_answer) ''OllamaProvider'' ''llama3'' ''Hi'' briefed
                  None [])) =
       [[\<lparr>role = System, message_content = ''Be brief''\<rparr>,
         \<lparr>role = User, message_content = ''Hi''\<rparr>]]
   \<and> LLM_chat None (recorder some_answer) ''OllamaProvider'' ''llama3'' ''Hi'' briefed None [] =
       executeWithRetry None
         (recorder some_answer ''llama3''
            [\<lparr>role = System, message_content = ''Be brief''\<rparr>,
             \<lparr>role = User, message_content = ''Hi''\<rparr>] briefed None)
         \<lparr>retries = 3, retryInterval = 1000, retryBackoff = 2\<rparr>
         (Some ''OllamaProvider:llama3'') []"
proof -
  note at_briefed = LLM_chat_messages_and_policy [where options = briefed and answer = some_answer
      and node_env = None and provider = "recorder some_answer" and provider_name = "''OllamaProvider''"
      and modelId = "''llama3''" and content_text = "''Hi''" and streamCallback = None and s = "[]"]
  have h: "0 \<le> (case retries_option briefed of None \<Rightarrow> 1 | Some n \<Rightarrow> n)"
    by (simp add: briefed_def no_options_def)
  from at_briefed [THEN conjunct2] h
  have sent: "fst (snd (LLM_chat None (recorder some_answer) ''OllamaProvider'' ''llama3'' ''Hi''
                  briefed None [])) =
       [[\<lparr>role = System, message_content = ''Be brief''\<rparr>,
         \<lparr>role = User, message_content = ''Hi''\<rparr>]]"
    by (simp add: briefed_def no_options_def)
  from at_briefed [THEN conjunct1]
  have run: "LLM_chat None (recorder some_answer) ''OllamaProvider'' ''llama3'' ''Hi'' briefed None [] =
       executeWithRetry None
         (recorder some_answer ''llama3''
            [\<lparr>role = System, message_content = ''Be brief''\<rparr>,
             \<lparr>role = User, message_content = ''Hi''\<rparr>] briefed None)
         \<lparr>retries = 3, retryInterval = 1000, retryBackoff = 2\<rparr>
         (Some ''OllamaProvider:llama3'') []"
    by (simp add: briefed_def no_options_def)
  from h sent run show ?thesis by (intro conjI)
qed

text \<open>
  Claim C9 as stated fails: with \<open>options.system\<close> present and empty, no system message is
  sent.
\<close>

theorem LLM_chat_messages_and_policy_counterexample:
  "system (no_options\<lparr>system := Some []\<rparr>) = Some []
   \<and> chat_messages ''Hi'' (no_options\<lparr>system := Some []\<rparr>) =
       [\<lparr>role = User, message_content = ''Hi''\<rparr>]
   \<and> fst (snd (LLM_chat None (recorder some_answer) ''OllamaProvider'' ''llama3'' ''Hi''
                  (no_options\<lparr>system := Some []\<rparr>) None [])) =
       [[\<lparr>role = User, message_content = ''Hi''\<rparr>]]"
  by (simp add: chat_messages_def no_options_def LLM_chat_def executeWithRetry_def
        retry_loop.simps getRetryConfig_def DEFAULT_RETRY_CONFIG_def recorder_def)

end
